theory Spec2Isabelle
  imports Main "HOL-Library.List_Lexorder" "HOL-Library.Char_ord" "HOL-Library.Multiset"
begin

section \<open>Python string primitives\<close>

text \<open>
  Python strings are modelled as HOL strings; a character stands for a code point
  below 256.  \<open>is_space\<close> lists the code points in that range for which Python's
  \<^verbatim>\<open>str.isspace\<close> holds; \<^verbatim>\<open>str.strip()\<close> and the regular expression class
  \<^verbatim>\<open>\s\<close> both use it.
\<close>

definition is_space :: "char \<Rightarrow> bool" where
  "is_space c = (c \<in> set [CHR 0x09, CHR 0x0A, CHR 0x0B, CHR 0x0C, CHR 0x0D,
                           CHR 0x1C, CHR 0x1D, CHR 0x1E, CHR 0x1F, CHR 0x20,
                           CHR 0x85, CHR 0xA0])"

definition is_upper :: "char \<Rightarrow> bool" where
  "is_upper c = (c \<in> set ''ABCDEFGHIJKLMNOPQRSTUVWXYZ'')"

definition is_ident :: "char \<Rightarrow> bool" where
  "is_ident c = (c \<in> set ''ABCDEFGHIJKLMNOPQRSTUVWXYZabcdefghijklmnopqrstuvwxyz0123456789_'')"

definition strip :: "string \<Rightarrow> string" where
  "strip s = rev (dropWhile is_space (rev (dropWhile is_space s)))"

definition startswith :: "string \<Rightarrow> string \<Rightarrow> bool" where
  "startswith s p = (take (length p) s = p)"

definition endswith :: "string \<Rightarrow> string \<Rightarrow> bool" where
  "endswith s p = (length p \<le> length s \<and> drop (length s - length p) s = p)"

definition count_char :: "char \<Rightarrow> string \<Rightarrow> int" where
  "count_char c s = int (length (filter (\<lambda>d. d = c) s))"

text \<open>\<^verbatim>\<open>sep.join(parts)\<close>\<close>

fun py_join :: "string \<Rightarrow> string list \<Rightarrow> string" where
  "py_join sep [] = []"
| "py_join sep [x] = x"
| "py_join sep (x # y # ys) = x @ sep @ py_join sep (y # ys)"

text \<open>\<^verbatim>\<open>line.count("{") - line.count("}")\<close> and the same for parentheses.\<close>

definition brace_delta :: "string \<Rightarrow> int" where
  "brace_delta line = count_char (CHR ''{'') line - count_char (CHR ''}'') line"

definition paren_delta :: "string \<Rightarrow> int" where
  "paren_delta line = count_char (CHR ''('') line - count_char (CHR '')'') line"

datatype py_error = IndexError | ValueError | RuntimeError string

section \<open>The inventory generator: doc collection\<close>

text \<open>\<^verbatim>\<open>stripped[3:].strip()\<close>, the text of a doc-comment line after its marker.\<close>

definition doc_text :: "string \<Rightarrow> string" where
  "doc_text stripped = strip (drop 3 stripped)"

text \<open>
  The backward loop of \<^verbatim>\<open>collect_leading_doc\<close>.  The counter \<open>n\<close> is the Python
  index \<open>i\<close> plus one, so that \<open>n = 0\<close> is the loop exit \<^verbatim>\<open>i < 0\<close>; \<open>docs\<close> is
  the list appended to, in the order of the appends.
\<close>

fun cld_loop :: "string list \<Rightarrow> nat \<Rightarrow> string list \<Rightarrow> string list" where
  "cld_loop lines 0 docs = docs"
| "cld_loop lines (Suc i) docs =
     (let stripped = strip (lines ! i) in
      if startswith stripped ''///'' then cld_loop lines i (docs @ [doc_text stripped])
      else if stripped = '''' then cld_loop lines i docs
      else docs)"

text \<open>
  \<^verbatim>\<open>collect_leading_doc(lines, start_index)\<close>.  The first read is
  \<^verbatim>\<open>lines[start_index - 1]\<close>, which raises when it is out of range.
\<close>

definition collect_leading_doc :: "string list \<Rightarrow> nat \<Rightarrow> py_error + string list" where
  "collect_leading_doc lines start_index =
     (if length lines < start_index then Inl IndexError
      else Inr (rev (cld_loop lines start_index [])))"

section \<open>The inventory generator: block and variant extraction\<close>

text \<open>The loop of \<^verbatim>\<open>collect_block\<close> over \<^verbatim>\<open>range(start_index, len(lines))\<close>.\<close>

function cb_loop ::
  "string list \<Rightarrow> nat \<Rightarrow> string list \<Rightarrow> int \<Rightarrow> bool \<Rightarrow> nat \<Rightarrow> string list \<times> nat" where
  "cb_loop lines idx buffer brace_depth started end_index =
     (if idx < length lines then
        (let line = lines ! idx;
             buffer' = buffer @ [line];
             brace_depth' =
               (if \<not> started then
                  (if CHR ''{'' \<in> set line then brace_depth + brace_delta line else brace_depth)
                else brace_depth + brace_delta line);
             started' = (started \<or> CHR ''{'' \<in> set line)
         in if started' \<and> brace_depth' \<le> 0 then (buffer', idx)
            else cb_loop lines (idx + 1) buffer' brace_depth' started' end_index)
      else (buffer, end_index))"
  by pat_completeness auto
termination
  by (relation "measure (\<lambda>(lines, idx, _). length lines - idx)") auto

declare cb_loop.simps [simp del]

definition collect_block :: "string list \<Rightarrow> nat \<Rightarrow> string \<times> nat" where
  "collect_block lines start_index =
     (case cb_loop lines start_index [] 0 False start_index of
        (buffer, end_index) \<Rightarrow> (strip (py_join [CHR 0x0A] buffer), end_index))"

text \<open>The loop of \<^verbatim>\<open>collect_variant_definition\<close>: \<^verbatim>\<open>while idx < len(lines)\<close>.\<close>

function cvd_loop ::
  "string list \<Rightarrow> nat \<Rightarrow> string list \<Rightarrow> int \<Rightarrow> int \<Rightarrow> nat \<Rightarrow> string list \<times> nat" where
  "cvd_loop lines idx buffer local_brace local_paren consumed =
     (if idx < length lines then
        (let line = lines ! idx;
             buffer' = buffer @ [line];
             stripped = strip line;
             local_brace' = local_brace + brace_delta line;
             local_paren' = local_paren + paren_delta line;
             consumed' = consumed + 1
         in if local_brace' \<le> 0 \<and> local_paren' \<le> 0 \<and> endswith stripped '','' then (buffer', consumed')
            else cvd_loop lines (idx + 1) buffer' local_brace' local_paren' consumed')
      else (buffer, consumed))"
  by pat_completeness auto
termination
  by (relation "measure (\<lambda>(lines, idx, _). length lines - idx)") auto

declare cvd_loop.simps [simp del]

definition collect_variant_definition :: "string list \<Rightarrow> nat \<Rightarrow> string \<times> nat" where
  "collect_variant_definition lines start_index =
     (case cvd_loop lines start_index [] 0 0 0 of
        (buffer, consumed) \<Rightarrow> (strip (py_join [CHR 0x0A] buffer), consumed))"

record Variant =
  v_name :: string
  v_start_line :: nat
  v_doc :: "string list"
  v_definition :: string

text \<open>
  \<^verbatim>\<open>re.match(r"([A-Z][A-Za-z0-9_]*)", stripped)\<close>: the match exists when the first
  character is an upper-case ASCII letter, and its group is the longest run of
  identifier characters from the start.
\<close>

definition variant_match :: "string \<Rightarrow> string option" where
  "variant_match stripped =
     (case stripped of
        [] \<Rightarrow> None
      | c # _ \<Rightarrow> if is_upper c then Some (takeWhile is_ident stripped) else None)"

text \<open>
  The loop of \<^verbatim>\<open>collect_variants\<close>: \<^verbatim>\<open>while idx <= end_index\<close>, with the read
  \<^verbatim>\<open>lines[idx]\<close> raising when it is out of range.
\<close>

function cv_loop ::
  "string list \<Rightarrow> nat \<Rightarrow> nat \<Rightarrow> int \<Rightarrow> bool \<Rightarrow> string list \<Rightarrow> Variant list
     \<Rightarrow> py_error + Variant list" where
  "cv_loop lines end_index idx brace_depth inside_enum pending_doc variants =
     (if \<not> idx \<le> end_index then Inr variants
      else if \<not> idx < length lines then Inl IndexError
      else
        (let line = lines ! idx; stripped = strip line in
         if \<not> inside_enum then
           (if CHR ''{'' \<in> set line then
              cv_loop lines end_index (idx + 1) (brace_depth + brace_delta line) True pending_doc variants
            else cv_loop lines end_index (idx + 1) brace_depth inside_enum pending_doc variants)
         else if startswith stripped ''///'' then
           cv_loop lines end_index (idx + 1) (brace_depth + brace_delta line) inside_enum
             (pending_doc @ [doc_text stripped]) variants
         else if startswith stripped ''#['' then
           cv_loop lines end_index (idx + 1) (brace_depth + brace_delta line) inside_enum
             (pending_doc @ [stripped]) variants
         else if brace_depth = 1 \<and> stripped \<noteq> '''' \<and> \<not> startswith stripped ''//''
                 \<and> variant_match stripped \<noteq> None then
           (case collect_variant_definition lines idx of
              (variant_def, consumed) \<Rightarrow>
                cv_loop lines end_index (idx + consumed)
                  (brace_depth + sum_list (map brace_delta (take consumed (drop idx lines))))
                  inside_enum []
                  (variants @ [\<lparr>v_name = the (variant_match stripped), v_start_line = idx + 1,
                                 v_doc = pending_doc, v_definition = variant_def\<rparr>]))
         else cv_loop lines end_index (idx + 1) (brace_depth + brace_delta line) inside_enum
                pending_doc variants))"
  by pat_completeness auto
termination
proof -
  have mono: "consumed \<le> snd (cvd_loop lines idx buffer lb lp consumed)"
    for lines idx buffer lb lp consumed
  proof (induction lines idx buffer lb lp consumed rule: cvd_loop.induct)
    case (1 lines idx buffer lb lp consumed)
    note IH = "1.IH" [OF _ refl refl refl refl refl refl]
    show ?case
      by (subst cvd_loop.simps) (auto simp: Let_def dest!: IH intro: Suc_leD)
  qed
  have pos: "idx < length lines \<Longrightarrow> consumed < snd (cvd_loop lines idx buffer lb lp consumed)"
    for lines idx buffer lb lp consumed
    using mono [of "consumed + 1" lines "idx + 1" "buffer @ [lines ! idx]"
        "lb + brace_delta (lines ! idx)" "lp + paren_delta (lines ! idx)"]
    by (subst cvd_loop.simps) (auto simp: Let_def)
  have pos0: "idx < length lines \<Longrightarrow> cvd_loop lines idx [] 0 0 0 = (b, c) \<Longrightarrow> 0 < c"
    for lines idx b c
    using pos [of idx lines 0 "[]" 0 0] by simp
  show ?thesis
    by (relation "measure (\<lambda>(lines, end_index, idx, _). Suc end_index - idx)")
      (auto simp: collect_variant_definition_def split: prod.splits dest: pos0)
qed

declare cv_loop.simps [simp del]

definition collect_variants :: "string list \<Rightarrow> nat \<Rightarrow> nat \<Rightarrow> py_error + Variant list" where
  "collect_variants lines start_index end_index = cv_loop lines end_index start_index 0 False [] []"

section \<open>Paths\<close>

text \<open>
  A \<^verbatim>\<open>pathlib\<close> POSIX path after parsing: its anchor (\<open>''/''\<close>, \<open>''//''\<close> or empty)
  and its components.  Python's \<^verbatim>\<open>parts\<close> is the anchor, if any, followed by the
  components.
\<close>

record Path =
  anchor :: string
  names :: "string list"

text \<open>\<^verbatim>\<open>s.split(sep)\<close> for a one-character separator.\<close>

fun split_char :: "char \<Rightarrow> string \<Rightarrow> string list" where
  "split_char sep [] = [[]]"
| "split_char sep (c # cs) =
     (if c = sep then [] # split_char sep cs
      else (case split_char sep cs of
              [] \<Rightarrow> [[c]]
            | x # xs \<Rightarrow> (c # x) # xs))"

text \<open>
  \<^verbatim>\<open>Path(s)\<close>: exactly two leading slashes are kept as the anchor, one or more
  than two give \<open>''/''\<close>; empty components and \<open>''.''\<close> are dropped.
\<close>

definition Path_of :: "string \<Rightarrow> Path" where
  "Path_of s =
     \<lparr>anchor = (if startswith s ''//'' \<and> \<not> startswith s ''///'' then ''//''
                else if startswith s ''/'' then ''/'' else ''''),
      names = filter (\<lambda>x. x \<noteq> '''' \<and> x \<noteq> ''.'') (split_char (CHR ''/'') s)\<rparr>"

text \<open>\<^verbatim>\<open>str(path)\<close>, which is also \<^verbatim>\<open>path.as_posix()\<close>.\<close>

definition path_str :: "Path \<Rightarrow> string" where
  "path_str p =
     (if anchor p = '''' \<and> names p = [] then ''.''
      else anchor p @ py_join ''/'' (names p))"

text \<open>\<^verbatim>\<open>path.relative_to(other)\<close>; \<open>None\<close> stands for the \<^verbatim>\<open>ValueError\<close>.\<close>

definition relative_to :: "Path \<Rightarrow> Path \<Rightarrow> Path option" where
  "relative_to p other =
     (if anchor p = anchor other \<and> take (length (names other)) (names p) = names other
      then Some \<lparr>anchor = '''', names = drop (length (names other)) (names p)\<rparr>
      else None)"

text \<open>\<^verbatim>\<open>path / s\<close>: an absolute right operand replaces the left one.\<close>

definition joinpath :: "Path \<Rightarrow> string \<Rightarrow> Path" where
  "joinpath p s =
     (let q = Path_of s in
      if anchor q \<noteq> '''' then q else \<lparr>anchor = anchor p, names = names p @ names q\<rparr>)"

text \<open>
  The order \<^verbatim>\<open>sorted\<close> puts paths in: the lists of the \<open>''/''\<close>-separated pieces of
  their strings, compared lexicographically, with strings compared by code point.
\<close>

definition path_key :: "Path \<Rightarrow> string list" where
  "path_key p = split_char (CHR ''/'') (path_str p)"

section \<open>The inventory generator: files and items\<close>

text \<open>
  \<^verbatim>\<open>text.splitlines()\<close>: a line ends at a line boundary character, \<open>CR LF\<close> counting
  as one; no empty last line is produced.  \<open>cur\<close> is the line read so far.
\<close>

definition is_linebreak :: "char \<Rightarrow> bool" where
  "is_linebreak c = (c \<in> set [CHR 0x0A, CHR 0x0B, CHR 0x0C, CHR 0x0D, CHR 0x1C, CHR 0x1D,
                               CHR 0x1E, CHR 0x85])"

fun splitlines_from :: "string \<Rightarrow> string \<Rightarrow> string list" where
  "splitlines_from cur [] = (if cur = [] then [] else [cur])"
| "splitlines_from cur [c] = (if is_linebreak c then [cur] else [cur @ [c]])"
| "splitlines_from cur (c # d # cs) =
     (if c = CHR 0x0D \<and> d = CHR 0x0A then cur # splitlines_from [] cs
      else if is_linebreak c then cur # splitlines_from [] (d # cs)
      else splitlines_from (cur @ [c]) (d # cs))"

definition py_splitlines :: "string \<Rightarrow> string list" where
  "py_splitlines text = splitlines_from [] text"

text \<open>\<^verbatim>\<open>sub in s\<close> for strings.\<close>

fun contains_sub :: "string \<Rightarrow> string \<Rightarrow> bool" where
  "contains_sub sub [] = (sub = [])"
| "contains_sub sub (c # cs) = (startswith (c # cs) sub \<or> contains_sub sub cs)"

definition removesuffix :: "string \<Rightarrow> string \<Rightarrow> string" where
  "removesuffix s suffix =
     (if suffix \<noteq> [] \<and> endswith s suffix then take (length s - length suffix) s else s)"

text \<open>
  \<^verbatim>\<open>RE_ENUM = re.compile(r"pub\s+enum\s+(?P<name>[A-Za-z0-9_]+)")\<close>.
  \<open>enum_match_at\<close> is a match starting at the head of the string: both \<^verbatim>\<open>\s+\<close>
  take every space there is, since the character that must follow is not a space, and
  the name is the longest run of identifier characters.  \<open>RE_ENUM_search\<close> is
  \<^verbatim>\<open>RE_ENUM.search(line)\<close> followed by \<^verbatim>\<open>match.group("name")\<close>: the leftmost match.
\<close>

definition enum_match_at :: "string \<Rightarrow> string option" where
  "enum_match_at s =
     (if startswith s ''pub'' then
        (let r1 = drop 3 s; r2 = dropWhile is_space r1 in
         if takeWhile is_space r1 \<noteq> [] \<and> startswith r2 ''enum'' then
           (let r3 = drop 4 r2; r4 = dropWhile is_space r3; name = takeWhile is_ident r4 in
            if takeWhile is_space r3 \<noteq> [] \<and> name \<noteq> [] then Some name else None)
         else None)
      else None)"

fun RE_ENUM_search :: "string \<Rightarrow> string option" where
  "RE_ENUM_search [] = None"
| "RE_ENUM_search (c # cs) =
     (case enum_match_at (c # cs) of
        Some name \<Rightarrow> Some name
      | None \<Rightarrow> RE_ENUM_search cs)"

record EnumItem =
  e_name :: string
  e_module :: string
  e_path :: Path
  e_start_line :: nat
  e_doc :: "string list"
  e_definition :: string
  e_variants :: "Variant list"

text \<open>\<^verbatim>\<open>compute_module(path)\<close>, relative to \<open>BASE\<close>.\<close>

definition compute_module :: "Path \<Rightarrow> Path \<Rightarrow> py_error + string" where
  "compute_module base path =
     (case relative_to path base of
        None \<Rightarrow> Inl ValueError
      | Some rel \<Rightarrow>
          if names rel = [] then Inl IndexError
          else
            (let parts = (if last (names rel) = ''mod.rs'' then butlast (names rel)
                          else butlast (names rel) @ [removesuffix (last (names rel)) ''.rs''])
             in Inr (py_join ''::'' (filter (\<lambda>part. part \<noteq> '''') parts))))"

text \<open>The body of the loop of \<^verbatim>\<open>parse_file\<close> for a line that matches.\<close>

definition parse_item :: "Path \<Rightarrow> Path \<Rightarrow> Path \<Rightarrow> string list \<Rightarrow> nat \<Rightarrow> string \<Rightarrow> py_error + EnumItem" where
  "parse_item cwd base path lines idx name =
     (case collect_leading_doc lines idx of
        Inl e \<Rightarrow> Inl e
      | Inr enum_doc \<Rightarrow>
          (case collect_block lines idx of
             (definition, end_idx) \<Rightarrow>
               (case collect_variants lines idx end_idx of
                  Inl e \<Rightarrow> Inl e
                | Inr variants \<Rightarrow>
                    (case compute_module base path of
                       Inl e \<Rightarrow> Inl e
                     | Inr module \<Rightarrow>
                         (case relative_to path cwd of
                            None \<Rightarrow> Inl ValueError
                          | Some rel \<Rightarrow>
                              Inr \<lparr>e_name = name, e_module = module, e_path = rel,
                                   e_start_line = idx + 1, e_doc = enum_doc,
                                   e_definition = definition, e_variants = variants\<rparr>)))))"

text \<open>The loop of \<^verbatim>\<open>parse_file\<close> over \<^verbatim>\<open>enumerate(lines)\<close>.\<close>

fun parse_from :: "Path \<Rightarrow> Path \<Rightarrow> Path \<Rightarrow> string list \<Rightarrow> (nat \<times> string) list
    \<Rightarrow> py_error + EnumItem list" where
  "parse_from cwd base path lines [] = Inr []"
| "parse_from cwd base path lines ((idx, line) # rest) =
     (case RE_ENUM_search line of
        None \<Rightarrow> parse_from cwd base path lines rest
      | Some name \<Rightarrow>
          (case parse_item cwd base path lines idx name of
             Inl e \<Rightarrow> Inl e
           | Inr item \<Rightarrow>
               (case parse_from cwd base path lines rest of
                  Inl e \<Rightarrow> Inl e
                | Inr items \<Rightarrow> Inr (item # items))))"

definition parse_file :: "Path \<Rightarrow> Path \<Rightarrow> Path \<Rightarrow> string \<Rightarrow> py_error + EnumItem list" where
  "parse_file cwd base path text =
     (let lines = py_splitlines text in parse_from cwd base path lines (enumerate 0 lines))"

text \<open>
  The dictionary \<^verbatim>\<open>enum_to_dict\<close> builds.  A variant's dictionary has the four fields of
  \<open>Variant\<close> with the same values, so \<open>Variant\<close> stands for it too.
\<close>

record item_dict =
  d_kind :: string
  d_name :: string
  d_module :: string
  d_path :: string
  d_start_line :: nat
  d_doc :: "string list"
  d_definition :: string
  d_variants :: "Variant list"

definition enum_to_dict :: "EnumItem \<Rightarrow> item_dict" where
  "enum_to_dict item =
     \<lparr>d_kind = ''enum'', d_name = e_name item, d_module = e_module item,
      d_path = path_str (e_path item), d_start_line = e_start_line item, d_doc = e_doc item,
      d_definition = e_definition item, d_variants = e_variants item\<rparr>"

record inventory =
  inv_base :: string
  inv_items :: "item_dict list"

text \<open>The first loop of \<^verbatim>\<open>main\<close>: \<^verbatim>\<open>items.extend(parse_file(path))\<close> for each file.\<close>

fun parse_files :: "Path \<Rightarrow> Path \<Rightarrow> (Path \<times> string) list \<Rightarrow> py_error + EnumItem list" where
  "parse_files cwd base [] = Inr []"
| "parse_files cwd base ((path, text) # rest) =
     (case parse_file cwd base path text of
        Inl e \<Rightarrow> Inl e
      | Inr found \<Rightarrow>
          (case parse_files cwd base rest of
             Inl e \<Rightarrow> Inl e
           | Inr items \<Rightarrow> Inr (found @ items)))"

text \<open>
  The files \<^verbatim>\<open>main\<close> parses, in its order: \<open>tree\<close> is what \<^verbatim>\<open>BASE.rglob("*.rs")\<close>
  yields, each path with the text of its file, in whatever order the directory walk
  produces them.
\<close>

definition source_files :: "(Path \<times> string) list \<Rightarrow> (Path \<times> string) list" where
  "source_files tree =
     filter (\<lambda>(path, text). \<not> contains_sub ''/tests/'' (path_str path))
       (sort_key (\<lambda>(path, text). path_key path) tree)"

text \<open>The items \<^verbatim>\<open>main\<close> collects before it filters them.\<close>

definition discovered :: "Path \<Rightarrow> Path \<Rightarrow> (Path \<times> string) list \<Rightarrow> py_error + EnumItem list" where
  "discovered cwd base tree = parse_files cwd base (source_files tree)"

text \<open>
  \<^verbatim>\<open>main\<close> of the inventory generator, up to the value handed to \<^verbatim>\<open>json.dumps\<close>.
\<close>

definition main_inventory :: "Path \<Rightarrow> Path \<Rightarrow> (Path \<times> string) list \<Rightarrow> py_error + inventory" where
  "main_inventory cwd base tree =
     (case discovered cwd base tree of
        Inl e \<Rightarrow> Inl e
      | Inr items \<Rightarrow>
          (case relative_to base cwd of
             None \<Rightarrow> Inl ValueError
           | Some rel \<Rightarrow>
               Inr \<lparr>inv_base = path_str rel,
                    inv_items = map enum_to_dict
                      (filter (\<lambda>item. endswith (e_name item) ''Event'') items)\<rparr>))"

section \<open>The usage generator\<close>

text \<open>What \<^verbatim>\<open>subprocess.run\<close> returns for the search command.\<close>

record CompletedProcess =
  returncode :: int
  stdout :: string
  stderr :: string

text \<open>
  \<^verbatim>\<open>path_str, line_no, text = line.split(":", 2)\<close>: the line is cut at its first two
  colons; with fewer than two the unpacking raises \<^verbatim>\<open>ValueError\<close>, here \<open>None\<close>.
\<close>

definition split_colon2 :: "string \<Rightarrow> (string \<times> string \<times> string) option" where
  "split_colon2 line =
     (case dropWhile (\<lambda>c. c \<noteq> CHR '':'') line of
        [] \<Rightarrow> None
      | _ # r1 \<Rightarrow>
          (case dropWhile (\<lambda>c. c \<noteq> CHR '':'') r1 of
             [] \<Rightarrow> None
           | _ # r2 \<Rightarrow>
               Some (takeWhile (\<lambda>c. c \<noteq> CHR '':'') line,
                     takeWhile (\<lambda>c. c \<noteq> CHR '':'') r1, r2)))"

text \<open>
  \<^verbatim>\<open>int(s)\<close> for a string.  The white space dropped at the two ends is narrower than
  that of \<^verbatim>\<open>str.strip\<close>: tab, the line feed to carriage return range, space, and
  the code points 0x85 and 0xA0; the separators 0x1C to 0x1F are not dropped.  A sign
  may come first, then decimal digits, where single underscores may stand between two
  digits; anything else, and more than 4300 digits, raises \<^verbatim>\<open>ValueError\<close>, here
  \<open>None\<close>.
\<close>

definition is_int_space :: "char \<Rightarrow> bool" where
  "is_int_space c = (c \<in> set [CHR 0x09, CHR 0x0A, CHR 0x0B, CHR 0x0C, CHR 0x0D, CHR 0x20,
                               CHR 0x85, CHR 0xA0])"

definition int_strip :: "string \<Rightarrow> string" where
  "int_strip s = rev (dropWhile is_int_space (rev (dropWhile is_int_space s)))"

definition is_digit :: "char \<Rightarrow> bool" where
  "is_digit c = (c \<in> set ''0123456789'')"

fun digits_ok :: "string \<Rightarrow> bool" where
  "digits_ok [] = False"
| "digits_ok [c] = is_digit c"
| "digits_ok (c # d # cs) =
     (is_digit c \<and> (if d = CHR ''_'' then digits_ok cs else digits_ok (d # cs)))"

definition digits_value :: "string \<Rightarrow> int" where
  "digits_value ds = foldl (\<lambda>acc c. 10 * acc + (int (of_char c) - 48)) 0 ds"

definition py_int :: "string \<Rightarrow> int option" where
  "py_int s =
     (let t = int_strip s;
          negative = startswith t ''-'';
          body = (if startswith t ''-'' \<or> startswith t ''+'' then drop 1 t else t);
          ds = filter (\<lambda>c. c \<noteq> CHR ''_'') body
      in if digits_ok body \<and> length ds \<le> 4300
         then Some (if negative then - digits_value ds else digits_value ds)
         else None)"

text \<open>
  The loop of \<^verbatim>\<open>ripgrep\<close> over the lines of the output.  A line whose path is not
  under the repository root, or is under its \<open>refactor\<close> or \<open>target\<close> directory, is
  skipped before its line number is read.
\<close>

fun rg_lines :: "Path \<Rightarrow> string list \<Rightarrow> py_error + (Path \<times> int \<times> string) list" where
  "rg_lines repo_root [] = Inr []"
| "rg_lines repo_root (line # rest) =
     (case split_colon2 line of
        None \<Rightarrow> Inl ValueError
      | Some (path_s, line_no, text) \<Rightarrow>
          (case relative_to (Path_of path_s) repo_root of
             None \<Rightarrow> rg_lines repo_root rest
           | Some rel \<Rightarrow>
               if names rel \<noteq> [] \<and> hd (names rel) \<in> {''refactor'', ''target''}
               then rg_lines repo_root rest
               else
                 (case py_int line_no of
                    None \<Rightarrow> Inl ValueError
                  | Some n \<Rightarrow>
                      (case rg_lines repo_root rest of
                         Inl e \<Rightarrow> Inl e
                       | Inr results \<Rightarrow> Inr ((Path_of path_s, n, text) # results)))))"

text \<open>
  \<^verbatim>\<open>ripgrep(pattern)\<close>.  \<open>run\<close> stands for running the search command for a pattern:
  it gives the finished process.
\<close>

definition ripgrep :: "Path \<Rightarrow> (string \<Rightarrow> CompletedProcess) \<Rightarrow> string
    \<Rightarrow> py_error + (Path \<times> int \<times> string) list" where
  "ripgrep repo_root run pattern =
     (let proc = run pattern in
      if returncode proc \<notin> {0, 1} then Inl (RuntimeError (stderr proc))
      else if strip (stdout proc) = '''' then Inr []
      else rg_lines repo_root (py_splitlines (stdout proc)))"

record Occurrence =
  o_path :: Path
  o_line :: int
  o_text :: string

record occurrence_dict =
  od_path :: string
  od_line :: int
  od_line_text :: string

text \<open>\<^verbatim>\<open>Occurrence.to_dict\<close>.\<close>

definition to_dict :: "Path \<Rightarrow> Occurrence \<Rightarrow> py_error + occurrence_dict" where
  "to_dict repo_root occ =
     (case relative_to (o_path occ) repo_root of
        None \<Rightarrow> Inl ValueError
      | Some rel \<Rightarrow>
          Inr \<lparr>od_path = path_str rel, od_line = o_line occ, od_line_text = strip (o_text occ)\<rparr>)"

text \<open>\<^verbatim>\<open>[hit.to_dict() for hit in hits]\<close>\<close>

fun to_dicts :: "Path \<Rightarrow> Occurrence list \<Rightarrow> py_error + occurrence_dict list" where
  "to_dicts repo_root [] = Inr []"
| "to_dicts repo_root (hit # hits) =
     (case to_dict repo_root hit of
        Inl e \<Rightarrow> Inl e
      | Inr d \<Rightarrow>
          (case to_dicts repo_root hits of
             Inl e \<Rightarrow> Inl e
           | Inr ds \<Rightarrow> Inr (d # ds)))"

record usage_record =
  u_domain :: string
  u_event_type :: string
  u_variant :: string
  u_occurrences :: "occurrence_dict list"

text \<open>The search pattern of a variant: \<^verbatim>\<open>f"{name}::{variant_name}"\<close>.\<close>

definition usage_pattern :: "item_dict \<Rightarrow> Variant \<Rightarrow> string" where
  "usage_pattern item variant = d_name item @ ''::'' @ v_name variant"

text \<open>
  \<^verbatim>\<open>module_path\<close>, the declaring file of an item.  \<open>resolve\<close> stands for
  \<^verbatim>\<open>Path.resolve\<close>, which asks the file system.
\<close>

definition module_path :: "Path \<Rightarrow> (Path \<Rightarrow> Path) \<Rightarrow> item_dict \<Rightarrow> Path" where
  "module_path repo_root resolve item = resolve (joinpath repo_root (d_path item))"

text \<open>The hits of a variant: the matches that are not in the declaring file.\<close>

definition variant_hits :: "(Path \<Rightarrow> Path) \<Rightarrow> Path \<Rightarrow> (Path \<times> int \<times> string) list \<Rightarrow> Occurrence list" where
  "variant_hits resolve declaring results =
     map (\<lambda>(path, line, text). \<lparr>o_path = path, o_line = line, o_text = text\<rparr>)
       (filter (\<lambda>(path, line, text). resolve path \<noteq> declaring) results)"

text \<open>The body of the inner loop of \<^verbatim>\<open>main\<close>: the record appended for one variant.\<close>

definition variant_usage :: "Path \<Rightarrow> (Path \<Rightarrow> Path) \<Rightarrow> (string \<Rightarrow> CompletedProcess)
    \<Rightarrow> item_dict \<Rightarrow> Variant \<Rightarrow> py_error + usage_record" where
  "variant_usage repo_root resolve run item variant =
     (case ripgrep repo_root run (usage_pattern item variant) of
        Inl e \<Rightarrow> Inl e
      | Inr results \<Rightarrow>
          (let hits = variant_hits resolve (module_path repo_root resolve item) results in
           if hits \<noteq> [] then
             (case to_dicts repo_root hits of
                Inl e \<Rightarrow> Inl e
              | Inr ds \<Rightarrow>
                  Inr \<lparr>u_domain = d_module item, u_event_type = d_name item,
                       u_variant = v_name variant, u_occurrences = ds\<rparr>)
           else
             Inr \<lparr>u_domain = d_module item, u_event_type = d_name item,
                  u_variant = v_name variant, u_occurrences = []\<rparr>))"

text \<open>The inner and the outer loop of \<^verbatim>\<open>main\<close>; the result is \<^verbatim>\<open>usage_report\<close>.\<close>

fun usage_variants :: "Path \<Rightarrow> (Path \<Rightarrow> Path) \<Rightarrow> (string \<Rightarrow> CompletedProcess)
    \<Rightarrow> item_dict \<Rightarrow> Variant list \<Rightarrow> py_error + usage_record list" where
  "usage_variants repo_root resolve run item [] = Inr []"
| "usage_variants repo_root resolve run item (variant # rest) =
     (case variant_usage repo_root resolve run item variant of
        Inl e \<Rightarrow> Inl e
      | Inr r \<Rightarrow>
          (case usage_variants repo_root resolve run item rest of
             Inl e \<Rightarrow> Inl e
           | Inr rs \<Rightarrow> Inr (r # rs)))"

fun main_usage :: "Path \<Rightarrow> (Path \<Rightarrow> Path) \<Rightarrow> (string \<Rightarrow> CompletedProcess)
    \<Rightarrow> item_dict list \<Rightarrow> py_error + usage_record list" where
  "main_usage repo_root resolve run [] = Inr []"
| "main_usage repo_root resolve run (item # rest) =
     (case usage_variants repo_root resolve run item (d_variants item) of
        Inl e \<Rightarrow> Inl e
      | Inr rs \<Rightarrow>
          (case main_usage repo_root resolve run rest of
             Inl e \<Rightarrow> Inl e
           | Inr report \<Rightarrow> Inr (rs @ report)))"

section \<open>The two phases in sequence\<close>

text \<open>
  \<open>BASE\<close> of the inventory generator, from the repository root that both scripts
  derive from their own location.
\<close>

definition BASE :: "Path \<Rightarrow> Path" where
  "BASE repo_root = \<lparr>anchor = anchor repo_root, names = names repo_root @ [''crates'', ''events'', ''src'']\<rparr>"

text \<open>
  The inventory generator, then the usage generator on the items it wrote.  The result
  is the pair of values handed to \<^verbatim>\<open>json.dumps\<close>.
\<close>

definition pipeline :: "Path \<Rightarrow> Path \<Rightarrow> (Path \<Rightarrow> Path) \<Rightarrow> (string \<Rightarrow> CompletedProcess)
    \<Rightarrow> (Path \<times> string) list \<Rightarrow> py_error + inventory \<times> usage_record list" where
  "pipeline cwd repo_root resolve run tree =
     (case main_inventory cwd (BASE repo_root) tree of
        Inl e \<Rightarrow> Inl e
      | Inr written \<Rightarrow>
          (case main_usage repo_root resolve run (inv_items written) of
             Inl e \<Rightarrow> Inl e
           | Inr report \<Rightarrow> Inr (written, report)))"

section \<open>Notions the claims are stated with\<close>

text \<open>
  The (event type, variant) pairs of an inventory in traversal order: items in order,
  each item's variants in order.
\<close>

definition inventory_pairs :: "item_dict list \<Rightarrow> (string \<times> string) list" where
  "inventory_pairs inventory =
     concat (map (\<lambda>item. map (\<lambda>v. (d_name item, v_name v)) (d_variants item)) inventory)"


text \<open>
  The text of \<open>n\<close> lines from index \<open>first\<close>, joined by newlines, in two readings:
  with white space removed at the two ends of the whole text only, and with every line
  stripped on its own.
\<close>

definition stripped_span :: "string list \<Rightarrow> nat \<Rightarrow> nat \<Rightarrow> string" where
  "stripped_span lines first n = strip (py_join [CHR 0x0A] (take n (drop first lines)))"

definition normalized_span :: "string list \<Rightarrow> nat \<Rightarrow> nat \<Rightarrow> string" where
  "normalized_span lines first n = py_join [CHR 0x0A] (map strip (take n (drop first lines)))"

text \<open>
  The conventional layout of an enum body, one variant per group of lines.  A group is
  the lines between two variants (doc comments, attributes, other comments, blank
  lines: any line with balanced braces that does not start a variant) followed by the
  variant's own lines.  Those start with an upper-case identifier, have balanced braces
  as a whole, and their last line is the first one that ends in a comma once the braces
  and parentheses opened since the variant's first line are closed.  The opening line
  holds the only unmatched brace, and the closing line starts no variant.
\<close>

definition is_doc_line :: "string \<Rightarrow> bool" where
  "is_doc_line l = startswith (strip l) ''///''"

definition starts_variant :: "string \<Rightarrow> bool" where
  "starts_variant l =
     (\<not> startswith (strip l) ''///'' \<and> \<not> startswith (strip l) ''#['' \<and> strip l \<noteq> []
      \<and> \<not> startswith (strip l) ''//'' \<and> variant_match (strip l) \<noteq> None)"

definition between_line :: "string \<Rightarrow> bool" where
  "between_line l = (brace_delta l = 0 \<and> \<not> starts_variant l)"

definition stops_at :: "string list \<Rightarrow> nat \<Rightarrow> bool" where
  "stops_at d k =
     (sum_list (map brace_delta (take (Suc k) d)) \<le> 0
      \<and> sum_list (map paren_delta (take (Suc k) d)) \<le> 0
      \<and> endswith (strip (d ! k)) '','')"

definition variant_lines :: "string list \<Rightarrow> bool" where
  "variant_lines d =
     (d \<noteq> [] \<and> starts_variant (hd d) \<and> sum_list (map brace_delta d) = 0
      \<and> list_all (\<lambda>k. stops_at d k = (Suc k = length d)) [0..<length d])"

definition body_lines :: "(string list \<times> string list) list \<Rightarrow> string list" where
  "body_lines groups = concat (map (\<lambda>(p, d). p @ d) groups)"

definition enum_layout :: "string \<Rightarrow> (string list \<times> string list) list \<Rightarrow> string \<Rightarrow> bool" where
  "enum_layout header groups closer =
     (CHR ''{'' \<in> set header \<and> brace_delta header = 1
      \<and> list_all (\<lambda>(p, d). list_all between_line p \<and> variant_lines d) groups
      \<and> \<not> starts_variant closer)"

text \<open>
  What a line between two variants adds to the doc list of the next variant, and the
  variants expected from the groups of a body whose first line has index \<open>off\<close>.
\<close>

definition pending_entry :: "string \<Rightarrow> string list" where
  "pending_entry l =
     (if startswith (strip l) ''///'' then [doc_text (strip l)]
      else if startswith (strip l) ''#['' then [strip l]
      else [])"

fun expected_variants :: "nat \<Rightarrow> (string list \<times> string list) list \<Rightarrow> Variant list" where
  "expected_variants off [] = []"
| "expected_variants off ((p, d) # gs) =
     \<lparr>v_name = the (variant_match (strip (hd d))), v_start_line = off + length p + 1,
      v_doc = concat (map pending_entry p), v_definition = strip (py_join [CHR 0x0A] d)\<rparr>
     # expected_variants (off + length p + length d) gs"

text \<open>The doc-comment lines that stand directly above index \<open>i\<close>, with no gap.\<close>

definition doc_run_above :: "string list \<Rightarrow> nat \<Rightarrow> string list" where
  "doc_run_above lines i = rev (takeWhile is_doc_line (rev (take i lines)))"

section \<open>Example inputs\<close>

definition example_root :: Path where
  "example_root = Path_of ''/repo''"

definition example_source :: string where
  "example_source =
     ''/// Orders'' @ [CHR 0x0A] @
     ''pub enum OrderEvent {'' @ [CHR 0x0A] @
     ''    Created(OrderId),'' @ [CHR 0x0A] @
     ''    Cancelled {'' @ [CHR 0x0A] @
     ''        reason: String,'' @ [CHR 0x0A] @
     ''    },'' @ [CHR 0x0A] @
     ''}'' @ [CHR 0x0A] @
     ''pub enum OrderStatus {'' @ [CHR 0x0A] @
     ''    Created(OrderId),'' @ [CHR 0x0A] @
     ''    Cancelled {'' @ [CHR 0x0A] @
     ''        reason: String,'' @ [CHR 0x0A] @
     ''    },'' @ [CHR 0x0A] @
     ''}'' @ [CHR 0x0A]"

definition example_tree :: "(Path \<times> string) list" where
  "example_tree = [(Path_of ''/repo/crates/events/src/order.rs'', example_source)]"

definition example_inventory :: "item_dict list" where
  "example_inventory =
     [\<lparr>d_kind = ''enum'', d_name = ''OrderEvent'', d_module = ''order'',
       d_path = ''crates/events/src/order.rs'', d_start_line = 1, d_doc = [],
       d_definition = ''pub enum OrderEvent { .. }'',
       d_variants =
         [\<lparr>v_name = ''Created'', v_start_line = 2, v_doc = [], v_definition = ''Created(OrderId),''\<rparr>,
          \<lparr>v_name = ''Cancelled'', v_start_line = 3, v_doc = [], v_definition = ''Cancelled,''\<rparr>]\<rparr>]"

text \<open>
  A search that finds \<open>OrderEvent::Created\<close> in the declaring file and in one other
  file, \<open>OrderEvent::Cancelled\<close> in the declaring file only, and fails on any other
  pattern.
\<close>

definition example_run :: "string \<Rightarrow> CompletedProcess" where
  "example_run pattern =
     (if pattern = ''OrderEvent::Created'' then
        \<lparr>returncode = 0,
         stdout = ''/repo/crates/events/src/order.rs:9:    OrderEvent::Created(id) => 1,'' @ [CHR 0x0A]
                  @ ''/repo/apps/shop/src/main.rs:12:  emit(OrderEvent::Created(id));'' @ [CHR 0x0A],
         stderr = ''''\<rparr>
      else if pattern = ''OrderEvent::Cancelled'' then
        \<lparr>returncode = 0,
         stdout = ''/repo/crates/events/src/order.rs:10:    OrderEvent::Cancelled => 2,'' @ [CHR 0x0A],
         stderr = ''''\<rparr>
      else \<lparr>returncode = 2, stdout = '''', stderr = ''rg: regex parse error''\<rparr>)"

text \<open>
  An enum whose last variant has no trailing comma, followed by another declaration.
\<close>

definition example_no_trailing_comma :: "string list" where
  "example_no_trailing_comma =
     [''pub enum FooEvent {'', ''    A,'', ''    B'', ''}'', ''pub struct X {'', ''    a: u32,'', ''}'']"

definition example_struct_variant :: "string list" where
  "example_struct_variant =
     [''pub enum OrderEvent {'', ''    Cancelled {'', ''        reason: String,'', ''    },'', ''}'']"

definition example_header :: string where
  "example_header = ''pub enum OrderEvent {''"

definition example_groups :: "(string list \<times> string list) list" where
  "example_groups =
     [([''    /// Order created'', ''    /// by a customer''], [''    Created(OrderId),'']),
      (['''', ''    // dropped''],
       [''    Cancelled {'', ''        reason: String,'', ''        items: Vec<(u32, Item)>,'',
        ''    },''])]"

definition example_one_line_enum :: "string list" where
  "example_one_line_enum =
     [''pub enum OrderEvent { Created(OrderId), Cancelled { reason: String } }'']"

definition example_doc_above_blank :: "string list" where
  "example_doc_above_blank = [''/// Old note'', '''', ''/// Orders'', ''pub enum OrderEvent {'']"

definition example_attribute_above_doc :: "string list" where
  "example_attribute_above_doc =
     [''pub enum OrderEvent {'', ''    #[default]'', ''    /// Order created'', ''    Created,'', ''}'']"

text \<open>
  A tree of two files, listed against the sorted order, and a search that finds one
  pattern and reports no match for every other.
\<close>

definition example_tree_two :: "(Path \<times> string) list" where
  "example_tree_two =
     [(Path_of ''/repo/crates/events/src/z/mod.rs'', ''pub enum ZoneEvent {'' @ [CHR 0x0A] @ ''    Opened,'' @ [CHR 0x0A] @ ''}'' @ [CHR 0x0A]),
      (Path_of ''/repo/crates/events/src/order.rs'', example_source)]"

definition example_quiet_run :: "string \<Rightarrow> CompletedProcess" where
  "example_quiet_run pattern =
     (if pattern = ''OrderEvent::Created'' then example_run pattern
      else \<lparr>returncode = 1, stdout = [], stderr = []\<rparr>)"

section \<open>Properties of doc collection\<close>

lemma cld_loop_append: "n \<le> length xs \<Longrightarrow> cld_loop (xs @ ys) n docs = cld_loop xs n docs"
  by (induction n arbitrary: docs) (simp_all add: nth_append Let_def)

lemma cld_loop_acc: "cld_loop xs n docs = docs @ cld_loop xs n []"
proof (induction n arbitrary: docs)
  case 0
  show ?case by simp
next
  case (Suc n)
  show ?case
    using Suc.IH [of "docs @ [doc_text (strip (xs ! n))]"] Suc.IH [of "[doc_text (strip (xs ! n))]"]
      Suc.IH [of docs]
    by (simp add: Let_def)
qed

lemma cld_loop_snoc:
  "cld_loop (xs @ [l]) (Suc (length xs)) docs =
     (if startswith (strip l) ''///'' then cld_loop xs (length xs) (docs @ [doc_text (strip l)])
      else if strip l = '''' then cld_loop xs (length xs) docs
      else docs)"
  by (simp add: Let_def cld_loop_append)

lemma cld_loop_blanks:
  "\<forall>l\<in>set bs. strip l = '''' \<Longrightarrow>
   cld_loop (xs @ bs) (length xs + length bs) docs = cld_loop xs (length xs) docs"
proof (induction bs rule: rev_induct)
  case Nil
  show ?case by simp
next
  case (snoc b bs)
  have nd: "\<not> startswith '''' ''///''" by (simp add: startswith_def)
  have "cld_loop ((xs @ bs) @ [b]) (Suc (length (xs @ bs))) docs = cld_loop (xs @ bs) (length (xs @ bs)) docs"
    using snoc.prems nd by (simp only: cld_loop_snoc) simp
  then show ?case using snoc by simp
qed

lemma cld_loop_docs:
  "\<forall>l\<in>set ds. startswith (strip l) ''///'' \<Longrightarrow>
   cld_loop (xs @ ds) (length xs + length ds) docs
     = cld_loop xs (length xs) (docs @ rev (map (\<lambda>l. doc_text (strip l)) ds))"
proof (induction ds arbitrary: docs rule: rev_induct)
  case Nil
  show ?case by simp
next
  case (snoc d ds)
  have "cld_loop ((xs @ ds) @ [d]) (Suc (length (xs @ ds))) docs
          = cld_loop (xs @ ds) (length (xs @ ds)) (docs @ [doc_text (strip d)])"
    using snoc.prems by (simp only: cld_loop_snoc) simp
  then show ?case using snoc by simp
qed

lemma cld_loop_stop:
  "strip a \<noteq> '''' \<Longrightarrow> \<not> startswith (strip a) ''///'' \<Longrightarrow>
   cld_loop (xs @ [a]) (Suc (length xs)) docs = docs"
  by (simp only: cld_loop_snoc) simp

text \<open>
  The doc lines found above \<open>blanks\<close>, which lie directly above a declaration at the
  index after them: first the lines \<open>docs\<close> in their order, and whatever the walk
  collects further up in \<open>pre\<close> before them.
\<close>

lemma collect_leading_doc_docs_blanks:
  assumes blanks: "\<forall>l\<in>set blanks. strip l = ''''"
    and docs: "\<forall>l\<in>set docs. startswith (strip l) ''///''"
  shows "collect_leading_doc (pre @ docs @ blanks @ rest) (length pre + length docs + length blanks)
           = Inr (rev (cld_loop pre (length pre) []) @ map (\<lambda>l. doc_text (strip l)) docs)"
proof -
  have "cld_loop (((pre @ docs) @ blanks) @ rest) (length (pre @ docs) + length blanks) []
          = cld_loop ((pre @ docs) @ blanks) (length (pre @ docs) + length blanks) []"
    by (rule cld_loop_append) simp
  also have "\<dots> = cld_loop (pre @ docs) (length (pre @ docs)) []"
    by (rule cld_loop_blanks [OF blanks])
  also have "\<dots> = cld_loop pre (length pre) (rev (map (\<lambda>l. doc_text (strip l)) docs))"
    using cld_loop_docs [OF docs, of pre "[]"] by simp
  also have "\<dots> = rev (map (\<lambda>l. doc_text (strip l)) docs) @ cld_loop pre (length pre) []"
    by (rule cld_loop_acc)
  finally show ?thesis
    by (simp add: collect_leading_doc_def rev_map)
qed

lemma collect_leading_doc_stop_blanks:
  assumes blanks: "\<forall>l\<in>set blanks. strip l = ''''"
    and stop: "strip a \<noteq> ''''" "\<not> startswith (strip a) ''///''"
  shows "collect_leading_doc (pre @ [a] @ blanks @ rest) (length pre + 1 + length blanks) = Inr []"
proof -
  have "cld_loop (((pre @ [a]) @ blanks) @ rest) (length (pre @ [a]) + length blanks) []
          = cld_loop ((pre @ [a]) @ blanks) (length (pre @ [a]) + length blanks) []"
    by (rule cld_loop_append) simp
  also have "\<dots> = cld_loop (pre @ [a]) (length (pre @ [a])) []"
    by (rule cld_loop_blanks [OF blanks])
  also have "\<dots> = []"
    using cld_loop_stop [OF stop, of pre "[]"] by simp
  finally show ?thesis
    by (simp add: collect_leading_doc_def)
qed

text \<open>
  Claim C10.  The backward walk from a declaration stops at the first line that is
  neither blank nor a doc comment.  So when the nearest non-blank line above the
  declaration is such a line \<open>a\<close> (an attribute line, for instance), the doc list is
  empty, whatever stands above \<open>a\<close> in \<open>pre\<close>.  Blank lines do not stop the walk: doc
  lines \<open>docs\<close> that only blank lines separate from the declaration are attached, in
  their order, after whatever the walk collects above them.
\<close>

theorem doc_walk_stops_at_attribute_not_at_blank:
  assumes "\<forall>l\<in>set blanks. strip l = ''''"
    and "strip a \<noteq> ''''" and "\<not> startswith (strip a) ''///''"
    and "\<forall>l\<in>set docs. startswith (strip l) ''///''"
  shows "collect_leading_doc (pre @ [a] @ blanks @ rest) (length pre + 1 + length blanks) = Inr []
       \<and> (\<exists>above. collect_leading_doc pre (length pre) = Inr above
            \<and> collect_leading_doc (pre @ docs @ blanks @ rest)
                  (length pre + length docs + length blanks)
                = Inr (above @ map (\<lambda>l. doc_text (strip l)) docs))"
  using collect_leading_doc_stop_blanks [OF assms(1-3)] collect_leading_doc_docs_blanks [OF assms(1,4)]
  by (simp add: collect_leading_doc_def)

theorem doc_walk_stops_at_attribute_not_at_blank_witness:
  "list_all (\<lambda>l. strip l = '''') ['''', ''  '']
   \<and> strip ''#[derive(Debug)]'' \<noteq> '''' \<and> \<not> startswith (strip ''#[derive(Debug)]'') ''///''
   \<and> list_all (\<lambda>l. startswith (strip l) ''///'') [''/// Created'', ''   ///  when placed '']
   \<and> collect_leading_doc
        ([''/// Order events''] @ [''#[derive(Debug)]''] @ ['''', ''  ''] @ [''pub enum OrderEvent {''])
        (length [''/// Order events''] + 1 + length ['''', ''  '']) = Inr []
   \<and> collect_leading_doc
        ([''/// Order events''] @ [''/// Created'', ''   ///  when placed ''] @ ['''', ''  '']
           @ [''pub enum OrderEvent {''])
        (length [''/// Order events''] + length [''/// Created'', ''   ///  when placed '']
           + length ['''', ''  ''])
       = Inr [''Order events'', ''Created'', ''when placed'']"
  using doc_walk_stops_at_attribute_not_at_blank [of "['''', ''  '']" "''#[derive(Debug)]''"
      "[''/// Created'', ''   ///  when placed '']" "[''/// Order events'']" "[''pub enum OrderEvent {'']"]
  by (simp add: strip_def is_space_def startswith_def doc_text_def collect_leading_doc_def Let_def)

section \<open>Properties of the usage generator\<close>

lemma list_all2_left_witness:
  "list_all2 P xs ys \<Longrightarrow> x \<in> set xs \<Longrightarrow> \<exists>y\<in>set ys. P x y"
  by (induction xs ys rule: list_all2_induct) auto

lemma usage_variants_Inr:
  "usage_variants repo_root resolve run item vs = Inr rs \<Longrightarrow>
   list_all2 (\<lambda>v r. variant_usage repo_root resolve run item v = Inr r) vs rs"
  by (induction vs arbitrary: rs) (auto split: sum.splits)

lemma main_usage_Inr:
  "main_usage repo_root resolve run inventory = Inr report \<Longrightarrow>
   \<exists>rss. list_all2 (\<lambda>item rs. usage_variants repo_root resolve run item (d_variants item) = Inr rs)
           inventory rss \<and> report = concat rss"
proof (induction inventory arbitrary: report)
  case Nil
  then show ?case by simp
next
  case (Cons item rest)
  from Cons.prems obtain rs report' where
    rs: "usage_variants repo_root resolve run item (d_variants item) = Inr rs"
    and rest: "main_usage repo_root resolve run rest = Inr report'"
    and rep: "report = rs @ report'"
    by (auto split: sum.splits)
  from Cons.IH [OF rest] obtain rss where
    "list_all2 (\<lambda>item rs. usage_variants repo_root resolve run item (d_variants item) = Inr rs) rest rss"
    "report' = concat rss" by blast
  with rs rep show ?case
    by (intro exI [of _ "rs # rss"]) simp
qed

lemma variant_usage_key:
  "variant_usage repo_root resolve run item v = Inr r \<Longrightarrow>
   u_domain r = d_module item \<and> u_event_type r = d_name item \<and> u_variant r = v_name v"
  by (auto simp: variant_usage_def Let_def split: sum.splits if_splits)

lemma usage_variants_keys:
  assumes "usage_variants repo_root resolve run item vs = Inr rs"
  shows "map (\<lambda>r. (u_event_type r, u_variant r)) rs = map (\<lambda>v. (d_name item, v_name v)) vs"
proof -
  have "list_all2 (\<lambda>v r. (u_event_type r, u_variant r) = (d_name item, v_name v)) vs rs"
    using usage_variants_Inr [OF assms]
    by (rule list_all2_mono) (simp add: variant_usage_key)
  then show ?thesis
    by (induction vs rs rule: list_all2_induct) auto
qed

lemma main_usage_keys:
  "main_usage repo_root resolve run inventory = Inr report \<Longrightarrow>
   map (\<lambda>r. (u_event_type r, u_variant r)) report = inventory_pairs inventory"
  by (induction inventory arbitrary: report)
     (auto simp: inventory_pairs_def usage_variants_keys split: sum.splits)

lemma main_usage_record:
  assumes "main_usage repo_root resolve run inventory = Inr report"
    and "item \<in> set inventory" and "v \<in> set (d_variants item)"
  shows "\<exists>r\<in>set report. variant_usage repo_root resolve run item v = Inr r"
proof -
  from main_usage_Inr [OF assms(1)] obtain rss where
    all: "list_all2 (\<lambda>item rs. usage_variants repo_root resolve run item (d_variants item) = Inr rs)
           inventory rss" and rep: "report = concat rss" by blast
  from list_all2_left_witness [OF all assms(2)] obtain rs where rs: "rs \<in> set rss"
    "usage_variants repo_root resolve run item (d_variants item) = Inr rs"
    by blast
  from list_all2_left_witness [OF usage_variants_Inr [OF rs(2)] assms(3)] obtain r where "r \<in> set rs"
    "variant_usage repo_root resolve run item v = Inr r"
    by blast
  with rs(1) rep show ?thesis by auto
qed

lemma to_dicts_Inr:
  "to_dicts repo_root hits = Inr ds \<Longrightarrow>
   ds = map (\<lambda>occ. \<lparr>od_path = path_str (the (relative_to (o_path occ) repo_root)),
                     od_line = o_line occ, od_line_text = strip (o_text occ)\<rparr>) hits"
  by (induction hits arbitrary: ds) (auto simp: to_dict_def split: sum.splits option.splits)

lemma variant_usage_occurrences:
  assumes "variant_usage repo_root resolve run item v = Inr r"
  shows "\<exists>results. ripgrep repo_root run (usage_pattern item v) = Inr results
     \<and> u_occurrences r =
         map (\<lambda>(path, line, text). \<lparr>od_path = path_str (the (relative_to path repo_root)),
                                     od_line = line, od_line_text = strip text\<rparr>)
           (filter (\<lambda>(path, line, text). resolve path \<noteq> module_path repo_root resolve item) results)"
proof -
  from assms obtain results where res: "ripgrep repo_root run (usage_pattern item v) = Inr results"
    by (auto simp: variant_usage_def split: sum.splits)
  let ?hits = "variant_hits resolve (module_path repo_root resolve item) results"
  have "u_occurrences r = map (\<lambda>occ. \<lparr>od_path = path_str (the (relative_to (o_path occ) repo_root)),
                     od_line = o_line occ, od_line_text = strip (o_text occ)\<rparr>) ?hits"
  proof (cases "?hits = []")
    case True
    with assms res show ?thesis by (auto simp: variant_usage_def)
  next
    case False
    with assms res obtain ds where ds: "to_dicts repo_root ?hits = Inr ds" "u_occurrences r = ds"
      by (auto simp: variant_usage_def split: sum.splits)
    with to_dicts_Inr [OF ds(1)] show ?thesis by simp
  qed
  then have "u_occurrences r =
         map (\<lambda>(path, line, text). \<lparr>od_path = path_str (the (relative_to path repo_root)),
                                     od_line = line, od_line_text = strip text\<rparr>)
           (filter (\<lambda>(path, line, text). resolve path \<noteq> module_path repo_root resolve item) results)"
    by (simp add: variant_hits_def comp_def case_prod_unfold)
  with res show ?thesis by blast
qed

text \<open>
  Claim C5.  When the usage generator finishes, its report has exactly one record for
  each (event type, variant) pair of the inventory, in traversal order.  The record of
  a pair carries the item's domain, and its occurrence list is empty, not missing, when
  no match outside the declaring file was found.
\<close>

theorem usage_report_one_record_per_pair:
  assumes "main_usage repo_root resolve run inventory = Inr report"
  shows "map (\<lambda>r. (u_event_type r, u_variant r)) report = inventory_pairs inventory
       \<and> length report = length (inventory_pairs inventory)
       \<and> (\<forall>item\<in>set inventory. \<forall>v\<in>set (d_variants item).
            \<exists>r\<in>set report. \<exists>results.
              u_domain r = d_module item \<and> u_event_type r = d_name item \<and> u_variant r = v_name v
              \<and> ripgrep repo_root run (usage_pattern item v) = Inr results
              \<and> (variant_hits resolve (module_path repo_root resolve item) results = []
                    \<longrightarrow> u_occurrences r = []))"
proof -
  have keys: "map (\<lambda>r. (u_event_type r, u_variant r)) report = inventory_pairs inventory"
    by (rule main_usage_keys [OF assms])
  then have len: "length report = length (inventory_pairs inventory)"
    by (metis length_map)
  have "\<exists>r\<in>set report. \<exists>results.
              u_domain r = d_module item \<and> u_event_type r = d_name item \<and> u_variant r = v_name v
              \<and> ripgrep repo_root run (usage_pattern item v) = Inr results
              \<and> (variant_hits resolve (module_path repo_root resolve item) results = []
                    \<longrightarrow> u_occurrences r = [])"
    if "item \<in> set inventory" "v \<in> set (d_variants item)" for item v
  proof -
    from main_usage_record [OF assms that] obtain r where
      r: "r \<in> set report" "variant_usage repo_root resolve run item v = Inr r" by blast
    from r(2) obtain results where res: "ripgrep repo_root run (usage_pattern item v) = Inr results"
      by (auto simp: variant_usage_def split: sum.splits)
    have "variant_hits resolve (module_path repo_root resolve item) results = [] \<longrightarrow> u_occurrences r = []"
      using r(2) res by (auto simp: variant_usage_def)
    with r res variant_usage_key [OF r(2)] show ?thesis by blast
  qed
  with keys len show ?thesis by blast
qed

theorem usage_report_one_record_per_pair_witness:
  "\<exists>report. main_usage example_root id example_run example_inventory = Inr report
     \<and> map (\<lambda>r. (u_event_type r, u_variant r)) report
         = [(''OrderEvent'', ''Created''), (''OrderEvent'', ''Cancelled'')]
     \<and> map (\<lambda>r. length (u_occurrences r)) report = [1, 0]"
proof -
  have run: "main_usage example_root id example_run example_inventory =
    Inr [\<lparr>u_domain = ''order'', u_event_type = ''OrderEvent'', u_variant = ''Created'',
           u_occurrences = [\<lparr>od_path = ''apps/shop/src/main.rs'', od_line = 12,
                             od_line_text = ''emit(OrderEvent::Created(id));''\<rparr>]\<rparr>,
         \<lparr>u_domain = ''order'', u_event_type = ''OrderEvent'', u_variant = ''Cancelled'',
           u_occurrences = []\<rparr>]"
    by code_simp
  have pairs: "inventory_pairs example_inventory = [(''OrderEvent'', ''Created''), (''OrderEvent'', ''Cancelled'')]"
    by code_simp
  from usage_report_one_record_per_pair [OF run] pairs show ?thesis
    using run by simp
qed

text \<open>
  What the filter of the usage generator does: in the record of a variant the
  occurrences are the search matches whose resolved path differs from \<open>module_path\<close>
  of the item, in the order of the search output, and none is left when every match
  resolves to \<open>module_path\<close>.
\<close>

lemma matches_at_module_path_discarded:
  assumes "main_usage repo_root resolve run inventory = Inr report"
    and "item \<in> set inventory" and "v \<in> set (d_variants item)"
  shows "\<exists>r\<in>set report. \<exists>results.
           u_event_type r = d_name item \<and> u_variant r = v_name v
           \<and> ripgrep repo_root run (usage_pattern item v) = Inr results
           \<and> u_occurrences r =
               map (\<lambda>(path, line, text). \<lparr>od_path = path_str (the (relative_to path repo_root)),
                                           od_line = line, od_line_text = strip text\<rparr>)
                 (filter (\<lambda>(path, line, text). resolve path \<noteq> module_path repo_root resolve item) results)
           \<and> ((\<forall>(path, line, text)\<in>set results. resolve path = module_path repo_root resolve item)
                 \<longrightarrow> u_occurrences r = [])"
proof -
  from main_usage_record [OF assms] obtain r where
    r: "r \<in> set report" "variant_usage repo_root resolve run item v = Inr r" by blast
  from variant_usage_occurrences [OF r(2)] obtain results where
    res: "ripgrep repo_root run (usage_pattern item v) = Inr results"
    and occ: "u_occurrences r =
         map (\<lambda>(path, line, text). \<lparr>od_path = path_str (the (relative_to path repo_root)),
                                     od_line = line, od_line_text = strip text\<rparr>)
           (filter (\<lambda>(path, line, text). resolve path \<noteq> module_path repo_root resolve item) results)"
    by blast
  have "(\<forall>(path, line, text)\<in>set results. resolve path = module_path repo_root resolve item)
          \<longrightarrow> u_occurrences r = []"
    unfolding occ by (auto simp: filter_empty_conv)
  with r res occ variant_usage_key [OF r(2)] show ?thesis by blast
qed

text \<open>
  Claim C8, on the code.  The inventory generator stores the path of the declaring file
  relative to the working directory, and the usage generator joins it to the repository
  root.  Run from \<open>/repo/crates\<close>, the first stores \<open>events/src/order.rs\<close>, which the
  second takes for \<open>/repo/events/src/order.rs\<close>: the matches in the declaring file
  \<open>/repo/crates/events/src/order.rs\<close> are kept, and \<open>Cancelled\<close>, which only that
  file refers to, gets one occurrence.  Run from the repository root on the same tree
  and search, they are discarded and the list of \<open>Cancelled\<close> is empty.
\<close>

theorem definition_site_match_kept_when_run_below_root:
  "(case pipeline (Path_of ''/repo/crates'') example_root id example_run example_tree of
      Inl e \<Rightarrow> False
    | Inr (written, report) \<Rightarrow>
        map d_path (inv_items written) = [''events/src/order.rs'']
        \<and> map (\<lambda>r. (u_variant r, map od_path (u_occurrences r))) report
            = [(''Created'', [''crates/events/src/order.rs'', ''apps/shop/src/main.rs'']),
               (''Cancelled'', [''crates/events/src/order.rs''])])
   \<and> (case pipeline example_root example_root id example_run example_tree of
        Inl e \<Rightarrow> False
      | Inr (written, report) \<Rightarrow>
          map d_path (inv_items written) = [''crates/events/src/order.rs'']
          \<and> map (\<lambda>r. (u_variant r, map od_path (u_occurrences r))) report
              = [(''Created'', [''apps/shop/src/main.rs'']), (''Cancelled'', [])])"
  by code_simp







section \<open>Properties of the inventory filter\<close>

lemma enum_to_dict_name: "d_name (enum_to_dict item) = e_name item"
  by (simp add: enum_to_dict_def)

text \<open>
  Claim C6.  The inventory written holds, in discovery order, exactly the discovered
  items whose name ends in \<open>Event\<close>: a discovered item is in it if and only if its
  name has that suffix, and no item named \<open>OrderStatus\<close> is ever in it.
\<close>

theorem inventory_holds_exactly_suffixed_items:
  assumes "main_inventory cwd base tree = Inr out"
  shows "\<exists>items. discovered cwd base tree = Inr items
     \<and> inv_items out = map enum_to_dict (filter (\<lambda>item. endswith (e_name item) ''Event'') items)
     \<and> (\<forall>item\<in>set items. enum_to_dict item \<in> set (inv_items out) \<longleftrightarrow> endswith (e_name item) ''Event'')
     \<and> (\<forall>d\<in>set (inv_items out). d_name d \<noteq> ''OrderStatus'')"
proof -
  from assms obtain items where
    items: "discovered cwd base tree = Inr items"
    and out: "inv_items out = map enum_to_dict (filter (\<lambda>item. endswith (e_name item) ''Event'') items)"
    by (auto simp: main_inventory_def split: sum.splits option.splits)
  have iff: "enum_to_dict item \<in> set (inv_items out) \<longleftrightarrow> endswith (e_name item) ''Event''"
    if "item \<in> set items" for item
  proof
    assume "enum_to_dict item \<in> set (inv_items out)"
    then obtain item' where "endswith (e_name item') ''Event''" "enum_to_dict item = enum_to_dict item'"
      unfolding out by auto
    then show "endswith (e_name item) ''Event''"
      by (metis enum_to_dict_name)
  next
    assume "endswith (e_name item) ''Event''"
    with that show "enum_to_dict item \<in> set (inv_items out)"
      unfolding out by auto
  qed
  have "\<not> endswith ''OrderStatus'' ''Event''"
    by (simp add: endswith_def)
  then have "\<forall>d\<in>set (inv_items out). d_name d \<noteq> ''OrderStatus''"
    unfolding out by (auto simp: enum_to_dict_name)
  with items out iff show ?thesis by blast
qed

theorem inventory_holds_exactly_suffixed_items_witness:
  "\<exists>out items. main_inventory example_root (BASE example_root) example_tree = Inr out
     \<and> discovered example_root (BASE example_root) example_tree = Inr items
     \<and> map e_name items = [''OrderEvent'', ''OrderStatus'']
     \<and> map d_name (inv_items out) = [''OrderEvent'']"
proof -
  have "case discovered example_root (BASE example_root) example_tree of
          Inl e \<Rightarrow> False
        | Inr items \<Rightarrow> map e_name items = [''OrderEvent'', ''OrderStatus'']"
    by code_simp
  then obtain items where items: "discovered example_root (BASE example_root) example_tree = Inr items"
    "map e_name items = [''OrderEvent'', ''OrderStatus'']"
    by (auto split: sum.splits)
  have "relative_to (BASE example_root) example_root \<noteq> None"
    by code_simp
  then obtain out where out: "main_inventory example_root (BASE example_root) example_tree = Inr out"
    using items(1) by (auto simp: main_inventory_def)
  from inventory_holds_exactly_suffixed_items [OF out] items
  have "inv_items out = map enum_to_dict (filter (\<lambda>item. endswith (e_name item) ''Event'') items)"
    by auto
  then have "map d_name (inv_items out) = filter (\<lambda>n. endswith n ''Event'') (map e_name items)"
    by (simp add: filter_map comp_def enum_to_dict_name)
  also have "\<dots> = [''OrderEvent'']"
    unfolding items(2) by (simp add: endswith_def)
  finally have "map d_name (inv_items out) = [''OrderEvent'']" .
  then show ?thesis
    by (intro exI [of _ out] exI [of _ items]) (simp add: out items)
qed

section \<open>Properties of block and variant extraction\<close>

text \<open>
  Claim C1, on the code.  The block extractor reports that the enum ends at index 3,
  its closing line.  The definition of the last variant \<open>B\<close>, which starts at index 2
  and has no trailing comma, takes four lines: it runs through the closing line and
  the two lines after it, as far as the first line that ends in a comma.
\<close>

theorem last_variant_without_comma_runs_past_block:
  "snd (collect_block example_no_trailing_comma 0) = 3
   \<and> collect_variant_definition example_no_trailing_comma 2
        = (''B'' @ [CHR 0x0A] @ ''}'' @ [CHR 0x0A] @ ''pub struct X {'' @ [CHR 0x0A] @ ''    a: u32,'', 4)
   \<and> collect_variants example_no_trailing_comma 0 3
        = Inr [\<lparr>v_name = ''A'', v_start_line = 2, v_doc = [], v_definition = ''A,''\<rparr>,
               \<lparr>v_name = ''B'', v_start_line = 3, v_doc = [],
                v_definition = ''B'' @ [CHR 0x0A] @ ''}'' @ [CHR 0x0A] @ ''pub struct X {''
                                 @ [CHR 0x0A] @ ''    a: u32,''\<rparr>]"
  by code_simp

lemma cvd_loop_span:
  "cvd_loop lines idx buffer lb lp consumed = (buf, c) \<Longrightarrow>
   consumed \<le> c \<and> buf = buffer @ take (c - consumed) (drop idx lines)
   \<and> c - consumed \<le> length lines - idx"
proof (induction lines idx buffer lb lp consumed rule: cvd_loop.induct)
  case (1 lines idx buffer lb lp consumed)
  note IH = "1.IH" [OF _ refl refl refl refl refl refl]
  show ?case
  proof (cases "idx < length lines")
    case False
    with "1.prems" show ?thesis
      by (subst (asm) cvd_loop.simps) simp
  next
    case True
    let ?line = "lines ! idx"
    let ?stop = "lb + brace_delta ?line \<le> 0 \<and> lp + paren_delta ?line \<le> 0
                 \<and> endswith (strip ?line) '',''"
    have hd: "take (Suc n) (drop idx lines) = ?line # take n (drop (Suc idx) lines)" for n
      using True by (simp add: Cons_nth_drop_Suc [symmetric])
    show ?thesis
    proof (cases ?stop)
      case stop: True
      with True "1.prems" have "buf = buffer @ [?line]" "c = consumed + 1"
        by (subst (asm) cvd_loop.simps, simp add: Let_def)+
      with True hd [of 0] show ?thesis by simp
    next
      case go: False
      with True "1.prems" have
        "cvd_loop lines (idx + 1) (buffer @ [?line]) (lb + brace_delta ?line)
           (lp + paren_delta ?line) (consumed + 1) = (buf, c)"
        by (subst (asm) cvd_loop.simps) (simp add: Let_def)
      from IH [OF True go this] have
        le: "consumed + 1 \<le> c"
        and buf: "buf = (buffer @ [?line]) @ take (c - (consumed + 1)) (drop (idx + 1) lines)"
        and len: "c - (consumed + 1) \<le> length lines - (idx + 1)"
        by simp_all
      from le have c: "c - consumed = Suc (c - (consumed + 1))" by simp
      have "c - consumed \<le> length lines - idx"
        using le len True by linarith
      moreover have "buf = buffer @ take (c - consumed) (drop idx lines)"
        using buf unfolding c hd by simp
      ultimately show ?thesis using le by simp
    qed
  qed
qed

lemma cvd_loop_pos:
  assumes "cvd_loop lines idx buffer lb lp consumed = (buf, c)" and "idx < length lines"
  shows "consumed < c"
proof -
  let ?line = "lines ! idx"
  show ?thesis
  proof (cases "lb + brace_delta ?line \<le> 0 \<and> lp + paren_delta ?line \<le> 0
                 \<and> endswith (strip ?line) '',''")
    case True
    with assms show ?thesis
      by (subst (asm) cvd_loop.simps) (simp add: Let_def)
  next
    case False
    with assms have
      "cvd_loop lines (idx + 1) (buffer @ [?line]) (lb + brace_delta ?line)
         (lp + paren_delta ?line) (consumed + 1) = (buf, c)"
      by (subst (asm) cvd_loop.simps) (simp add: Let_def)
    from cvd_loop_span [OF this] show ?thesis by simp
  qed
qed

lemma collect_variant_definition_span:
  assumes "collect_variant_definition lines idx = (d, c)" and "idx < length lines"
  shows "1 \<le> c \<and> idx + c \<le> length lines
       \<and> d = strip (py_join [CHR 0x0A] (take c (drop idx lines)))"
proof -
  obtain buf where loop: "cvd_loop lines idx [] 0 0 0 = (buf, c)"
    and d: "d = strip (py_join [CHR 0x0A] buf)"
    using assms(1) by (auto simp: collect_variant_definition_def split: prod.splits)
  from cvd_loop_span [OF loop] have buf: "buf = take c (drop idx lines)"
    and "c \<le> length lines - idx"
    by simp_all
  with assms(2) have len: "idx + c \<le> length lines"
    by linarith
  from cvd_loop_pos [OF loop assms(2)] buf len d show ?thesis by simp
qed

lemma cv_loop_all:
  assumes "cv_loop lines e idx bd inside pend acc = Inr vs"
    and "\<forall>v\<in>set acc. P v"
    and "\<forall>i d c name pd. i < length lines \<longrightarrow> collect_variant_definition lines i = (d, c) \<longrightarrow>
           P \<lparr>v_name = name, v_start_line = i + 1, v_doc = pd, v_definition = d\<rparr>"
    and "v \<in> set vs"
  shows "P v"
  using assms
proof (induction lines e idx bd inside pend acc rule: cv_loop.induct)
  case (1 lines e idx bd inside pend acc)
  note IH = "1.IH"(1) [OF _ _ refl refl] "1.IH"(2) [OF _ _ refl refl] "1.IH"(3) [OF _ _ refl refl]
    "1.IH"(4) [OF _ _ refl refl] "1.IH"(5) [OF _ _ refl refl] "1.IH"(6) [OF _ _ refl refl]
  let ?s = "strip (lines ! idx)"
  show ?case
  proof (cases "idx \<le> e \<and> idx < length lines \<and> inside \<and> \<not> startswith ?s ''///''
      \<and> \<not> startswith ?s ''#['' \<and> bd = 1 \<and> ?s \<noteq> [] \<and> \<not> startswith ?s ''//''
      \<and> variant_match ?s \<noteq> None")
    case True
    obtain d c where cvd: "collect_variant_definition lines idx = (d, c)"
      by fastforce
    let ?new = "\<lparr>v_name = the (variant_match ?s), v_start_line = idx + 1, v_doc = pend,
                 v_definition = d\<rparr>"
    from True "1.prems"(1) cvd have run:
      "cv_loop lines e (idx + c) (bd + sum_list (map brace_delta (take c (drop idx lines))))
         inside [] (acc @ [?new]) = Inr vs"
      by (subst (asm) cv_loop.simps) (simp add: Let_def)
    from True cvd "1.prems"(3) have "P ?new" by blast
    with "1.prems"(2) have acc: "\<forall>v\<in>set (acc @ [?new]). P v" by simp
    from True have c: "\<not> \<not> idx \<le> e" "\<not> \<not> idx < length lines" "\<not> \<not> inside"
      "\<not> startswith ?s ''///''" "\<not> startswith ?s ''#[''"
      "bd = 1 \<and> ?s \<noteq> [] \<and> \<not> startswith ?s ''//'' \<and> variant_match ?s \<noteq> None"
      by simp_all
    show ?thesis
      by (rule IH(5) [OF c cvd [symmetric] run acc "1.prems"(3,4)])
  next
    case False
    with "1.prems" show ?thesis
      apply (subst (asm) cv_loop.simps)
      apply (simp only: Let_def split: if_splits prod.splits)
              apply (auto intro: IH)
      done
  qed
qed

lemma cb_loop_span:
  "cb_loop lines idx buffer bd started e0 = (buf, e) \<Longrightarrow>
   (idx \<le> e \<and> e < length lines \<and> buf = buffer @ take (Suc e - idx) (drop idx lines))
   \<or> (e = e0 \<and> buf = buffer @ drop idx lines)"
proof (induction lines idx buffer bd started e0 rule: cb_loop.induct)
  case (1 lines idx buffer bd started e0)
  note IH = "1.IH" [OF _ refl refl refl refl]
  show ?case
  proof (cases "idx < length lines")
    case False
    with "1.prems" show ?thesis
      by (subst (asm) cb_loop.simps) simp
  next
    case True
    let ?line = "lines ! idx"
    let ?bd = "if \<not> started then (if CHR ''{'' \<in> set ?line then bd + brace_delta ?line else bd)
               else bd + brace_delta ?line"
    let ?started = "started \<or> CHR ''{'' \<in> set ?line"
    have hd: "take (Suc n) (drop idx lines) = ?line # take n (drop (Suc idx) lines)" for n
      using True by (simp add: Cons_nth_drop_Suc [symmetric])
    have dr: "drop idx lines = ?line # drop (Suc idx) lines"
      using True by (simp add: Cons_nth_drop_Suc)
    show ?thesis
    proof (cases "?started \<and> ?bd \<le> 0")
      case stop: True
      from "1.prems" True stop have "buf = buffer @ [?line] \<and> e = idx"
        by (subst (asm) cb_loop.simps) (simp add: Let_def split: if_splits)
      with True hd [of 0] show ?thesis by simp
    next
      case go: False
      from "1.prems" True go have
        "cb_loop lines (idx + 1) (buffer @ [?line]) ?bd ?started e0 = (buf, e)"
        by (subst (asm) cb_loop.simps) (simp add: Let_def split: if_splits)
      from IH [OF True go this] show ?thesis
      proof
        assume a: "idx + 1 \<le> e \<and> e < length lines
          \<and> buf = (buffer @ [?line]) @ take (Suc e - (idx + 1)) (drop (idx + 1) lines)"
        then have "Suc e - idx = Suc (Suc e - (idx + 1))" by auto
        with a hd show ?thesis by auto
      next
        assume "e = e0 \<and> buf = (buffer @ [?line]) @ drop (idx + 1) lines"
        with dr show ?thesis by simp
      qed
    qed
  qed
qed

lemma collect_block_span:
  assumes "collect_block lines i = (d, e)" and "i < length lines"
  shows "\<exists>n. 1 \<le> n \<and> i + n \<le> length lines \<and> d = stripped_span lines i n"
proof -
  obtain buf where loop: "cb_loop lines i [] 0 False i = (buf, e)"
    and d: "d = strip (py_join [CHR 0x0A] buf)"
    using assms(1) by (auto simp: collect_block_def split: prod.splits)
  from cb_loop_span [OF loop] show ?thesis
  proof
    assume "i \<le> e \<and> e < length lines \<and> buf = [] @ take (Suc e - i) (drop i lines)"
    with d show ?thesis
      by (intro exI [of _ "Suc e - i"]) (auto simp: stripped_span_def)
  next
    assume "e = i \<and> buf = [] @ drop i lines"
    with d assms(2) show ?thesis
      by (intro exI [of _ "length lines - i"]) (auto simp: stripped_span_def)
  qed
qed

lemma collect_variants_span:
  assumes "collect_variants lines i e = Inr vs" and "v \<in> set vs"
  shows "\<exists>c. 1 \<le> c \<and> 1 \<le> v_start_line v \<and> v_start_line v - 1 + c \<le> length lines
           \<and> v_definition v = stripped_span lines (v_start_line v - 1) c"
proof -
  let ?P = "\<lambda>v. \<exists>c. 1 \<le> c \<and> 1 \<le> v_start_line v \<and> v_start_line v - 1 + c \<le> length lines
           \<and> v_definition v = stripped_span lines (v_start_line v - 1) c"
  have step: "\<forall>i d c name pd. i < length lines \<longrightarrow> collect_variant_definition lines i = (d, c) \<longrightarrow>
           ?P \<lparr>v_name = name, v_start_line = i + 1, v_doc = pd, v_definition = d\<rparr>"
    using collect_variant_definition_span by (fastforce simp: stripped_span_def)
  from assms(1) have "cv_loop lines e i 0 False [] [] = Inr vs"
    by (simp add: collect_variants_def)
  from cv_loop_all [where P = ?P, OF this _ step assms(2)] show ?thesis by simp
qed

lemma parse_from_items:
  "parse_from cwd base path lines ps = Inr items \<Longrightarrow> item \<in> set items \<Longrightarrow>
   \<exists>idx line name. (idx, line) \<in> set ps \<and> parse_item cwd base path lines idx name = Inr item"
proof (induction ps arbitrary: items)
  case Nil
  then show ?case by simp
next
  case (Cons p ps)
  obtain idx line where p: "p = (idx, line)" by (cases p)
  show ?case
  proof (cases "RE_ENUM_search line")
    case None
    with Cons.prems p have "parse_from cwd base path lines ps = Inr items" by simp
    from Cons.IH [OF this Cons.prems(2)] show ?thesis by auto
  next
    case (Some name)
    with Cons.prems(1) p obtain first rest where
      first: "parse_item cwd base path lines idx name = Inr first"
      and rest: "parse_from cwd base path lines ps = Inr rest"
      and items: "items = first # rest"
      by (auto split: sum.splits)
    show ?thesis
    proof (cases "item = first")
      case True
      with first p show ?thesis by auto
    next
      case False
      with items Cons.prems(2) have "item \<in> set rest" by simp
      from Cons.IH [OF rest this] show ?thesis by auto
    qed
  qed
qed

text \<open>
  Claim C3, as amended.  The definition text of every discovered item and of every
  variant is the text of a span of source lines that starts at its start line, joined
  by newlines, with white space removed at the two ends of the whole text only: the
  lines inside keep their indentation.
\<close>

theorem definitions_are_stripped_spans:
  assumes "parse_file cwd base path text = Inr items" and "item \<in> set items"
  shows "(\<exists>n. 1 \<le> n \<and> 1 \<le> e_start_line item
            \<and> e_start_line item - 1 + n \<le> length (py_splitlines text)
            \<and> e_definition item = stripped_span (py_splitlines text) (e_start_line item - 1) n)
       \<and> (\<forall>v\<in>set (e_variants item).
            \<exists>c. 1 \<le> c \<and> 1 \<le> v_start_line v
              \<and> v_start_line v - 1 + c \<le> length (py_splitlines text)
              \<and> v_definition v = stripped_span (py_splitlines text) (v_start_line v - 1) c)"
proof -
  let ?lines = "py_splitlines text"
  from assms have "parse_from cwd base path ?lines (enumerate 0 ?lines) = Inr items"
    by (simp add: parse_file_def Let_def)
  from parse_from_items [OF this assms(2)] obtain idx line name where
    mem: "(idx, line) \<in> set (enumerate 0 ?lines)"
    and item: "parse_item cwd base path ?lines idx name = Inr item"
    by blast
  from mem have idx: "idx < length ?lines"
    by (simp add: in_set_enumerate_eq)
  obtain d e where cb: "collect_block ?lines idx = (d, e)" by fastforce
  from item cb obtain vs where vs: "collect_variants ?lines idx e = Inr vs"
    and fields: "e_start_line item = idx + 1" "e_definition item = d" "e_variants item = vs"
    by (auto simp: parse_item_def split: sum.splits option.splits)
  from collect_block_span [OF cb idx] fields
  have "\<exists>n. 1 \<le> n \<and> 1 \<le> e_start_line item
            \<and> e_start_line item - 1 + n \<le> length ?lines
            \<and> e_definition item = stripped_span ?lines (e_start_line item - 1) n"
    by simp
  moreover have "\<forall>v\<in>set (e_variants item).
            \<exists>c. 1 \<le> c \<and> 1 \<le> v_start_line v
              \<and> v_start_line v - 1 + c \<le> length ?lines
              \<and> v_definition v = stripped_span ?lines (v_start_line v - 1) c"
    using collect_variants_span [OF vs] fields(3) by blast
  ultimately show ?thesis by blast
qed

theorem definitions_are_stripped_spans_witness:
  "case parse_file example_root (BASE example_root) (Path_of ''/repo/crates/events/src/order.rs'')
          example_source of
     Inl e \<Rightarrow> False
   | Inr items \<Rightarrow>
       map e_definition items
         = [stripped_span (py_splitlines example_source) 1 6,
            stripped_span (py_splitlines example_source) 7 6]
       \<and> map (map v_definition \<circ> e_variants) items
         = [[stripped_span (py_splitlines example_source) 2 1,
             stripped_span (py_splitlines example_source) 3 3],
            [stripped_span (py_splitlines example_source) 8 1,
             stripped_span (py_splitlines example_source) 9 3]]"
proof -
  have ev: "case parse_file example_root (BASE example_root) (Path_of ''/repo/crates/events/src/order.rs'')
          example_source of
     Inl e \<Rightarrow> False
   | Inr items \<Rightarrow>
       map e_definition items
         = [stripped_span (py_splitlines example_source) 1 6,
            stripped_span (py_splitlines example_source) 7 6]
       \<and> map (map v_definition \<circ> e_variants) items
         = [[stripped_span (py_splitlines example_source) 2 1,
             stripped_span (py_splitlines example_source) 3 3],
            [stripped_span (py_splitlines example_source) 8 1,
             stripped_span (py_splitlines example_source) 9 3]]"
    by code_simp
  then obtain items where items:
    "parse_file example_root (BASE example_root) (Path_of ''/repo/crates/events/src/order.rs'')
          example_source = Inr items"
    by (auto split: sum.splits)
  have "\<forall>item\<in>set items. \<exists>n. e_definition item
          = stripped_span (py_splitlines example_source) (e_start_line item - 1) n"
    using definitions_are_stripped_spans [OF items] by blast
  with ev show ?thesis by simp
qed

text \<open>
  The definition of a struct-like variant is not the span with each line stripped: its
  inner lines keep their leading white space.
\<close>

theorem definition_keeps_inner_indentation:
  "collect_variant_definition example_struct_variant 1
     = (''Cancelled {'' @ [CHR 0x0A] @ ''        reason: String,'' @ [CHR 0x0A] @ ''    },'', 3)
   \<and> normalized_span example_struct_variant 1 3
     = ''Cancelled {'' @ [CHR 0x0A] @ ''reason: String,'' @ [CHR 0x0A] @ ''},''
   \<and> fst (collect_variant_definition example_struct_variant 1)
        \<noteq> normalized_span example_struct_variant 1 3"
  by code_simp

lemma cvd_loop_layout:
  assumes "\<forall>k<length (d1 @ d2). stops_at (d1 @ d2) k = (Suc k = length (d1 @ d2))"
    and "d2 \<noteq> []"
  shows "cvd_loop (pre @ (d1 @ d2) @ rest) (length pre + length d1) buffer
           (sum_list (map brace_delta d1)) (sum_list (map paren_delta d1)) consumed
         = (buffer @ d2, consumed + length d2)"
  using assms
proof (induction d2 arbitrary: d1 buffer consumed)
  case Nil
  then show ?case by simp
next
  case (Cons x d2)
  let ?lines = "pre @ (d1 @ x # d2) @ rest"
  let ?idx = "length pre + length d1"
  have idx: "?idx < length ?lines" by simp
  have line: "?lines ! ?idx = x"
    by (simp add: nth_append)
  have tk: "take (Suc (length d1)) (d1 @ x # d2) = d1 @ [x]" by simp
  have stop: "stops_at (d1 @ x # d2) (length d1) = (d2 = [])"
    using Cons.prems(1) by auto
  have stop_eq: "stops_at (d1 @ x # d2) (length d1)
     = (sum_list (map brace_delta d1) + brace_delta x \<le> 0
        \<and> sum_list (map paren_delta d1) + paren_delta x \<le> 0 \<and> endswith (strip x) '','')"
    unfolding stops_at_def tk by (simp add: nth_append)
  show ?case
  proof (cases "d2 = []")
    case True
    with stop stop_eq idx line show ?thesis
      by (subst cvd_loop.simps) (simp add: Let_def)
  next
    case False
    have "cvd_loop ?lines ?idx buffer (sum_list (map brace_delta d1)) (sum_list (map paren_delta d1)) consumed
        = cvd_loop ?lines (?idx + 1) (buffer @ [x]) (sum_list (map brace_delta d1) + brace_delta x)
            (sum_list (map paren_delta d1) + paren_delta x) (consumed + 1)"
    proof -
      have nostop: "(sum_list (map brace_delta d1) + brace_delta x \<le> 0
          \<and> sum_list (map paren_delta d1) + paren_delta x \<le> 0 \<and> endswith (strip x) '','') = False"
        using False stop stop_eq by simp
      show ?thesis
        by (subst cvd_loop.simps) (simp only: idx line nostop Let_def if_True if_False)
    qed
    also have "\<dots> = cvd_loop (pre @ ((d1 @ [x]) @ d2) @ rest) (length pre + length (d1 @ [x]))
            (buffer @ [x]) (sum_list (map brace_delta (d1 @ [x])))
            (sum_list (map paren_delta (d1 @ [x]))) (consumed + 1)"
      by simp
    also have "\<dots> = ((buffer @ [x]) @ d2, (consumed + 1) + length d2)"
      using Cons.prems(1) False by (intro Cons.IH) simp_all
    finally show ?thesis by simp
  qed
qed

lemma collect_variant_definition_layout:
  assumes "variant_lines d"
  shows "collect_variant_definition (pre @ d @ rest) (length pre)
           = (strip (py_join [CHR 0x0A] d), length d)"
proof -
  from assms have "\<forall>k<length ([] @ d). stops_at ([] @ d) k = (Suc k = length ([] @ d))" "d \<noteq> []"
    by (auto simp: variant_lines_def list_all_iff)
  from cvd_loop_layout [OF this, of pre rest "[]" 0] show ?thesis
    by (simp add: collect_variant_definition_def)
qed

lemma cv_loop_between:
  assumes "idx \<le> e" and "idx < length lines" and "between_line (lines ! idx)"
  shows "cv_loop lines e idx 1 True pend acc
           = cv_loop lines e (Suc idx) 1 True (pend @ pending_entry (lines ! idx)) acc"
  using assms
  by (subst cv_loop.simps)
     (auto simp: Let_def between_line_def starts_variant_def pending_entry_def)

lemma cv_loop_between_list:
  assumes "list_all between_line p" and "length pre + length p \<le> Suc e"
  shows "cv_loop (pre @ p @ rest) e (length pre) 1 True pend acc
           = cv_loop (pre @ p @ rest) e (length pre + length p) 1 True
               (pend @ concat (map pending_entry p)) acc"
  using assms
proof (induction p arbitrary: pre pend)
  case Nil
  then show ?case by simp
next
  case (Cons x p)
  let ?lines = "pre @ (x # p) @ rest"
  have line: "?lines ! length pre = x" by (simp add: nth_append)
  have "cv_loop ?lines e (length pre) 1 True pend acc
          = cv_loop ?lines e (Suc (length pre)) 1 True (pend @ pending_entry x) acc"
    using Cons.prems cv_loop_between [of "length pre" e ?lines pend acc] line by simp
  also have "\<dots> = cv_loop ((pre @ [x]) @ p @ rest) e (length (pre @ [x])) 1 True
                      (pend @ pending_entry x) acc"
    by simp
  also have "\<dots> = cv_loop ((pre @ [x]) @ p @ rest) e (length (pre @ [x]) + length p) 1 True
                      ((pend @ pending_entry x) @ concat (map pending_entry p)) acc"
    using Cons.prems by (intro Cons.IH) simp_all
  finally show ?case by simp
qed

lemma cv_loop_variant:
  assumes "variant_lines d" and "length pre \<le> e"
  shows "cv_loop (pre @ d @ rest) e (length pre) 1 True pend acc
           = cv_loop (pre @ d @ rest) e (length pre + length d) 1 True []
               (acc @ [\<lparr>v_name = the (variant_match (strip (hd d))), v_start_line = length pre + 1,
                         v_doc = pend, v_definition = strip (py_join [CHR 0x0A] d)\<rparr>])"
proof -
  let ?lines = "pre @ d @ rest"
  from assms(1) have d: "d \<noteq> []" and sv: "starts_variant (hd d)"
    and sum: "sum_list (map brace_delta d) = 0"
    by (simp_all add: variant_lines_def)
  have line: "?lines ! length pre = hd d"
    using d by (cases d) (simp_all add: nth_append)
  have idx: "length pre < length ?lines" using d by simp
  have tk: "take (length d) (drop (length pre) ?lines) = d" by simp
  show ?thesis
    using sv assms(2) idx
    by (subst cv_loop.simps)
       (simp add: Let_def line starts_variant_def collect_variant_definition_layout [OF assms(1)]
          tk sum del: append_assoc)
qed

lemma cv_loop_groups:
  assumes "list_all (\<lambda>(p, d). list_all between_line p \<and> variant_lines d) groups"
    and "length pre + length (body_lines groups) \<le> Suc e"
  shows "cv_loop (pre @ body_lines groups @ rest) e (length pre) 1 True [] acc
           = cv_loop (pre @ body_lines groups @ rest) e (length pre + length (body_lines groups))
               1 True [] (acc @ expected_variants (length pre) groups)"
  using assms
proof (induction groups arbitrary: pre acc)
  case Nil
  then show ?case by (simp add: body_lines_def)
next
  case (Cons g groups)
  obtain p d where g: "g = (p, d)" by (cases g)
  from Cons.prems(1) g have p: "list_all between_line p" and d: "variant_lines d"
    and gs: "list_all (\<lambda>(p, d). list_all between_line p \<and> variant_lines d) groups"
    by simp_all
  from d have dne: "d \<noteq> []" by (simp add: variant_lines_def)
  have body: "body_lines (g # groups) = p @ d @ body_lines groups"
    by (simp add: body_lines_def g)
  let ?lines = "pre @ body_lines (g # groups) @ rest"
  let ?new = "\<lparr>v_name = the (variant_match (strip (hd d))), v_start_line = length pre + length p + 1,
               v_doc = concat (map pending_entry p), v_definition = strip (py_join [CHR 0x0A] d)\<rparr>"
  from Cons.prems(2) have len: "length pre + length p + length d + length (body_lines groups) \<le> Suc e"
    by (simp add: body)
  have l1: "?lines = pre @ p @ (d @ body_lines groups @ rest)" by (simp add: body)
  have l2: "?lines = (pre @ p) @ d @ (body_lines groups @ rest)" by (simp add: body)
  have l3: "?lines = (pre @ p @ d) @ body_lines groups @ rest" by (simp add: body)
  have "cv_loop ?lines e (length pre) 1 True [] acc
          = cv_loop ?lines e (length pre + length p) 1 True (concat (map pending_entry p)) acc"
    unfolding l1 using cv_loop_between_list [OF p, of pre e _ "[]" acc] len by simp
  also have "\<dots> = cv_loop ?lines e (length (pre @ p) + length d) 1 True [] (acc @ [?new])"
    unfolding l2 using cv_loop_variant [OF d, of "pre @ p" e] len dne
    by (cases d) simp_all
  also have "\<dots> = cv_loop ?lines e (length (pre @ p @ d)) 1 True [] (acc @ [?new])"
    by (simp add: add.assoc)
  also have "\<dots> = cv_loop ?lines e (length (pre @ p @ d) + length (body_lines groups)) 1 True []
                      ((acc @ [?new]) @ expected_variants (length (pre @ p @ d)) groups)"
    unfolding l3 using gs len by (intro Cons.IH) simp_all
  finally have run: "cv_loop ?lines e (length pre) 1 True [] acc
      = cv_loop ?lines e (length (pre @ p @ d) + length (body_lines groups)) 1 True []
          ((acc @ [?new]) @ expected_variants (length (pre @ p @ d)) groups)" .
  have len_body: "length pre + length (body_lines (g # groups))
      = length (pre @ p @ d) + length (body_lines groups)"
    by (simp add: body)
  have exp: "acc @ expected_variants (length pre) (g # groups)
      = (acc @ [?new]) @ expected_variants (length (pre @ p @ d)) groups"
    by (simp add: g add.assoc)
  show ?case
    unfolding len_body exp by (rule run)
qed

lemma cv_loop_last:
  assumes "e < length lines" and "\<not> starts_variant (lines ! e)"
  shows "cv_loop lines e e bd True pend acc = Inr acc"
proof -
  have after: "cv_loop lines e (Suc e) bd' True pend' acc = Inr acc" for bd' pend'
    by (subst cv_loop.simps) simp
  show ?thesis
    using assms
    by (subst cv_loop.simps) (auto simp: Let_def starts_variant_def after)
qed

lemma collect_variants_layout:
  assumes "enum_layout header groups closer"
  shows "collect_variants (pre @ header # body_lines groups @ closer # post) (length pre)
           (length pre + 1 + length (body_lines groups))
         = Inr (expected_variants (length pre + 1) groups)"
proof -
  let ?lines = "pre @ header # body_lines groups @ closer # post"
  let ?e = "length pre + 1 + length (body_lines groups)"
  from assms have h: "CHR ''{'' \<in> set header" "brace_delta header = 1"
    and gs: "list_all (\<lambda>(p, d). list_all between_line p \<and> variant_lines d) groups"
    and cl: "\<not> starts_variant closer"
    by (simp_all add: enum_layout_def)
  have l: "?lines = (pre @ [header]) @ body_lines groups @ (closer # post)" by simp
  have line: "?lines ! length pre = header" by (simp add: nth_append)
  have last: "?lines ! ?e = closer"
    unfolding l by (simp add: nth_append)
  have "collect_variants ?lines (length pre) ?e = cv_loop ?lines ?e (Suc (length pre)) 1 True [] []"
    unfolding collect_variants_def using h line
    by (subst cv_loop.simps) (simp add: Let_def)
  also have "\<dots> = cv_loop ?lines ?e (length (pre @ [header]) + length (body_lines groups)) 1 True []
                      ([] @ expected_variants (length (pre @ [header])) groups)"
    unfolding l using cv_loop_groups [OF gs, of "pre @ [header]" ?e "closer # post" "[]"] by simp
  also have "\<dots> = cv_loop ?lines ?e ?e 1 True [] (expected_variants (length pre + 1) groups)"
    by simp
  also have "\<dots> = Inr (expected_variants (length pre + 1) groups)"
    using cl last by (intro cv_loop_last) simp_all
  finally show ?thesis .
qed

lemma expected_variants_names:
  "map v_name (expected_variants off groups)
     = map (\<lambda>(p, d). the (variant_match (strip (hd d)))) groups"
  by (induction off groups rule: expected_variants.induct) simp_all

lemma expected_variants_docs:
  "map v_doc (expected_variants off groups) = map (\<lambda>(p, d). concat (map pending_entry p)) groups"
  by (induction off groups rule: expected_variants.induct) simp_all

lemma expected_variants_length: "length (expected_variants off groups) = length groups"
  by (induction off groups rule: expected_variants.induct) simp_all

lemma pending_entry_filter:
  "concat (map pending_entry p)
     = concat (map pending_entry
        (filter (\<lambda>l. startswith (strip l) ''///'' \<or> startswith (strip l) ''#['') p))"
  by (induction p) (simp_all add: pending_entry_def)

lemma pending_entry_docs:
  "list_all is_doc_line docs \<Longrightarrow>
   concat (map pending_entry docs) = map (\<lambda>l. doc_text (strip l)) docs"
  by (induction docs) (simp_all add: pending_entry_def is_doc_line_def)

lemma cld_loop_top:
  assumes "upper = [] \<or> (strip (last upper) \<noteq> [] \<and> \<not> is_doc_line (last upper))"
  shows "cld_loop upper (length upper) docs = docs"
proof (cases "upper = []")
  case True
  then show ?thesis by simp
next
  case False
  then obtain xs a where upper: "upper = xs @ [a]"
    by (metis rev_exhaust)
  with assms have "strip a \<noteq> []" "\<not> startswith (strip a) ''///''"
    by (simp_all add: is_doc_line_def)
  from cld_loop_stop [OF this, of xs docs] upper show ?thesis by simp
qed

text \<open>
  Claim C2, as amended.  For an enum block in the conventional layout, with the block
  extractor reporting its closing line, segmentation returns exactly one variant for
  each of the \<open>N\<close> groups, in their order and under their names, whatever braces and
  parentheses nest inside the payloads.
\<close>

theorem segmentation_returns_each_variant_in_order:
  assumes "enum_layout header groups closer"
    and "lines = pre @ header # body_lines groups @ closer # post"
    and "snd (collect_block lines (length pre)) = length pre + 1 + length (body_lines groups)"
  shows "\<exists>vs. collect_variants lines (length pre) (snd (collect_block lines (length pre))) = Inr vs
           \<and> length vs = length groups
           \<and> map v_name vs = map (\<lambda>(p, d). the (variant_match (strip (hd d)))) groups"
proof -
  have "collect_variants lines (length pre) (snd (collect_block lines (length pre)))
          = Inr (expected_variants (length pre + 1) groups)"
    unfolding assms(3) unfolding assms(2) by (rule collect_variants_layout [OF assms(1)])
  moreover have "length (expected_variants (length pre + 1) groups) = length groups"
    using expected_variants_names [of "length pre + 1" groups] by (metis length_map)
  ultimately show ?thesis
    using expected_variants_names [of "length pre + 1" groups] by simp
qed

theorem segmentation_returns_each_variant_in_order_witness:
  "enum_layout example_header example_groups ''}''
   \<and> snd (collect_block ([''use ids::OrderId;''] @ example_header # body_lines example_groups @ ''}'' # [''''])
            (length [''use ids::OrderId;'']))
       = length [''use ids::OrderId;''] + 1 + length (body_lines example_groups)
   \<and> (\<exists>vs. collect_variants
              ([''use ids::OrderId;''] @ example_header # body_lines example_groups @ ''}'' # [''''])
              (length [''use ids::OrderId;''])
              (snd (collect_block
                      ([''use ids::OrderId;''] @ example_header # body_lines example_groups @ ''}'' # [''''])
                      (length [''use ids::OrderId;'']))) = Inr vs
          \<and> length vs = 2 \<and> map v_name vs = [''Created'', ''Cancelled''])"
proof -
  have layout: "enum_layout example_header example_groups ''}''"
    by code_simp
  have block: "snd (collect_block ([''use ids::OrderId;''] @ example_header # body_lines example_groups @ ''}'' # [''''])
            (length [''use ids::OrderId;'']))
       = length [''use ids::OrderId;''] + 1 + length (body_lines example_groups)"
    by code_simp
  have names: "map (\<lambda>(p, d). the (variant_match (strip (hd d)))) example_groups = [''Created'', ''Cancelled'']"
    by code_simp
  have len: "length example_groups = 2"
    by code_simp
  from segmentation_returns_each_variant_in_order [OF layout refl block]
  show ?thesis
    unfolding names len using layout block by simp
qed

text \<open>
  An enum written on one line has two variants, and segmentation returns none: only
  lines after the opening line are looked at.
\<close>

theorem enum_on_one_line_yields_no_variants:
  "snd (collect_block example_one_line_enum 0) = 0
   \<and> collect_variants example_one_line_enum 0 0 = Inr []"
  by code_simp

text \<open>
  Claim C7, as amended.  A declaration whose \<open>K\<close> doc-comment lines \<open>decl_docs\<close>
  stand directly above it gets exactly their \<open>K\<close> texts, in order, when the nearest
  non-blank line above them is not a doc comment, or there is none.  A variant of an
  enum in the conventional layout gets exactly the \<open>K\<close> texts of \<open>docs\<close>, in order,
  when \<open>docs\<close> are all the doc-comment and attribute lines between the previous
  variant (or the opening line) and the variant.
\<close>

theorem doc_lines_attached_in_order:
  assumes "upper = [] \<or> (strip (last upper) \<noteq> [] \<and> \<not> is_doc_line (last upper))"
    and "list_all (\<lambda>l. strip l = []) blanks"
    and "list_all is_doc_line decl_docs"
    and "enum_layout header groups closer"
    and "k < length groups"
    and "filter (\<lambda>l. startswith (strip l) ''///'' \<or> startswith (strip l) ''#['') (fst (groups ! k)) = docs"
    and "list_all is_doc_line docs"
  shows "collect_leading_doc (upper @ blanks @ decl_docs @ rest)
           (length upper + length blanks + length decl_docs)
         = Inr (map (\<lambda>l. doc_text (strip l)) decl_docs)
       \<and> (\<exists>vs. collect_variants (pre @ header # body_lines groups @ closer # post) (length pre)
                  (length pre + 1 + length (body_lines groups)) = Inr vs
              \<and> length vs = length groups
              \<and> v_doc (vs ! k) = map (\<lambda>l. doc_text (strip l)) docs
              \<and> length (v_doc (vs ! k)) = length docs)"
proof -
  have docs: "\<forall>l\<in>set decl_docs. startswith (strip l) ''///''"
    using assms(3) by (simp add: list_all_iff is_doc_line_def)
  have blanks: "\<forall>l\<in>set blanks. strip l = []"
    using assms(2) by (simp add: list_all_iff)
  have "cld_loop (upper @ blanks) (length upper + length blanks) [] = cld_loop upper (length upper) []"
    by (rule cld_loop_blanks [OF blanks])
  also have "\<dots> = []"
    by (rule cld_loop_top [OF assms(1)])
  finally have top: "cld_loop (upper @ blanks) (length (upper @ blanks)) [] = []"
    by simp
  have decl: "collect_leading_doc (upper @ blanks @ decl_docs @ rest)
           (length upper + length blanks + length decl_docs)
         = Inr (map (\<lambda>l. doc_text (strip l)) decl_docs)"
    using collect_leading_doc_docs_blanks [of "[]" decl_docs "upper @ blanks" rest] docs top
    by simp
  let ?vs = "expected_variants (length pre + 1) groups"
  have run: "collect_variants (pre @ header # body_lines groups @ closer # post) (length pre)
                  (length pre + 1 + length (body_lines groups)) = Inr ?vs"
    by (rule collect_variants_layout [OF assms(4)])
  have "v_doc (?vs ! k) = map v_doc ?vs ! k"
    using assms(5) by (simp add: expected_variants_length)
  also have "\<dots> = (\<lambda>(p, d). concat (map pending_entry p)) (groups ! k)"
    unfolding expected_variants_docs using assms(5) by simp
  also have "\<dots> = concat (map pending_entry (fst (groups ! k)))"
    by (simp add: case_prod_unfold)
  also have "\<dots> = concat (map pending_entry docs)"
    using pending_entry_filter [of "fst (groups ! k)"] assms(6) by simp
  also have "\<dots> = map (\<lambda>l. doc_text (strip l)) docs"
    by (rule pending_entry_docs [OF assms(7)])
  finally have vdoc: "v_doc (?vs ! k) = map (\<lambda>l. doc_text (strip l)) docs" .
  from decl run vdoc show ?thesis
    by (simp add: expected_variants_length)
qed

theorem doc_lines_attached_in_order_witness:
  "collect_leading_doc ([''use ids::OrderId;''] @ [''''] @ [''/// Orders'', ''   ///  and their life ''] @ [example_header])
       (length [''use ids::OrderId;''] + length [''''] + length [''/// Orders'', ''   ///  and their life ''])
     = Inr [''Orders'', ''and their life'']
   \<and> (\<exists>vs. collect_variants ([] @ example_header # body_lines example_groups @ ''}'' # []) (length ([] :: string list))
              (length ([] :: string list) + 1 + length (body_lines example_groups)) = Inr vs
          \<and> length vs = 2
          \<and> v_doc (vs ! 0) = [''Order created'', ''by a customer''])"
proof -
  have a: "[''use ids::OrderId;''] = [] \<or> (strip (last [''use ids::OrderId;'']) \<noteq> []
      \<and> \<not> is_doc_line (last [''use ids::OrderId;'']))"
    by code_simp
  have b: "list_all (\<lambda>l. strip l = []) ['''']"
    by code_simp
  have c: "list_all is_doc_line [''/// Orders'', ''   ///  and their life '']"
    by code_simp
  have layout: "enum_layout example_header example_groups ''}''"
    by code_simp
  have k: "0 < length example_groups"
    by code_simp
  have f: "filter (\<lambda>l. startswith (strip l) ''///'' \<or> startswith (strip l) ''#['') (fst (example_groups ! 0))
      = [''    /// Order created'', ''    /// by a customer'']"
    by code_simp
  have g: "list_all is_doc_line [''    /// Order created'', ''    /// by a customer'']"
    by code_simp
  have t1: "map (\<lambda>l. doc_text (strip l)) [''/// Orders'', ''   ///  and their life '']
      = [''Orders'', ''and their life'']"
    by code_simp
  have t2: "map (\<lambda>l. doc_text (strip l)) [''    /// Order created'', ''    /// by a customer'']
      = [''Order created'', ''by a customer'']"
    by code_simp
  have len: "length example_groups = 2"
    by code_simp
  note both = doc_lines_attached_in_order [OF a b c layout k f g, of "[example_header]" "[]" "[]",
      unfolded t1 t2 len]
  from both [THEN conjunct2] obtain vs where
    "collect_variants ([] @ example_header # body_lines example_groups @ ''}'' # []) (length ([] :: string list))
       (length ([] :: string list) + 1 + length (body_lines example_groups)) = Inr vs"
    "length vs = 2" "v_doc (vs ! 0) = [''Order created'', ''by a customer'']"
    by auto
  with both [THEN conjunct1] show ?thesis
    by simp
qed

text \<open>
  One doc-comment line stands directly above the declaration, and directly above the
  variant; the doc lists have two entries each: a doc comment above a blank line is
  collected too, and so is an attribute line, marker included.
\<close>

theorem doc_list_longer_than_doc_run:
  "doc_run_above example_doc_above_blank 3 = [''/// Orders'']
   \<and> collect_leading_doc example_doc_above_blank 3 = Inr [''Old note'', ''Orders'']
   \<and> doc_run_above example_attribute_above_doc 3 = [''    /// Order created'']
   \<and> collect_variants example_attribute_above_doc 0 4
        = Inr [\<lparr>v_name = ''Created'', v_start_line = 4, v_doc = [''#[default]'', ''Order created''],
                v_definition = ''Created,''\<rparr>]"
  by code_simp

section \<open>Two runs on the same tree\<close>

lemma filter_same_key:
  "distinct (map f xs) \<Longrightarrow> k \<in> set xs \<Longrightarrow> filter (\<lambda>x. f k = f x) xs = [k]"
proof (induction xs)
  case Nil
  then show ?case by simp
next
  case (Cons x xs)
  show ?case
  proof (cases "k = x")
    case True
    with Cons.prems(1) have "filter (\<lambda>y. f k = f y) xs = []"
      by (auto simp: filter_empty_conv)
    with True show ?thesis by simp
  next
    case False
    with Cons.prems have k: "k \<in> set xs" by simp
    then have "f k \<in> f ` set xs" by (rule imageI)
    with Cons.prems(1) have "f k \<noteq> f x" by auto
    with Cons k show ?thesis by simp
  qed
qed

lemma sort_key_permutation:
  assumes "mset xs = mset ys" and "distinct (map f ys)"
  shows "sort_key f xs = sort_key f ys"
proof (rule properties_for_sort_key)
  show "mset (sort_key f ys) = mset xs"
    using assms(1) by simp
  show "sorted (map f (sort_key f ys))"
    by simp
  have "mset (map f xs) = mset (map f ys)"
    using assms(1) by (metis mset_map)
  with assms(2) have dx: "distinct (map f xs)"
    by (metis mset_eq_imp_distinct_iff)
  have "mset (map f (sort_key f ys)) = mset (map f ys)"
    by (metis mset_map mset_sort)
  with assms(2) have ds: "distinct (map f (sort_key f ys))"
    by (metis mset_eq_imp_distinct_iff)
  fix k
  assume k: "k \<in> set (sort_key f ys)"
  then have "k \<in> set xs"
    using assms(1) by (metis mset_eq_setD set_sort)
  from filter_same_key [OF ds k] filter_same_key [OF dx this]
  show "filter (\<lambda>x. f k = f x) (sort_key f ys) = filter (\<lambda>x. f k = f x) xs"
    by simp
qed

text \<open>
  Claim C9.  Two runs of the two phases on the same source tree, with the search giving
  the same answers, produce the same inventory and the same usage report: the values
  handed to the serializer depend on the files of the tree and on the search only, not
  on the order in which the directory walk yields the files.
\<close>

theorem pipeline_independent_of_walk_order:
  assumes "mset walk = mset tree"
    and "distinct (map (\<lambda>(path, text). path_key path) tree)"
  shows "pipeline cwd repo_root resolve run walk = pipeline cwd repo_root resolve run tree"
proof -
  have "source_files walk = source_files tree"
    unfolding source_files_def using sort_key_permutation [OF assms] by simp
  then show ?thesis
    by (simp add: pipeline_def main_inventory_def discovered_def)
qed

theorem pipeline_independent_of_walk_order_witness:
  "mset (rev example_tree_two) = mset example_tree_two
   \<and> distinct (map (\<lambda>(path, text). path_key path) example_tree_two)
   \<and> rev example_tree_two \<noteq> example_tree_two
   \<and> pipeline example_root example_root id example_quiet_run (rev example_tree_two)
       = pipeline example_root example_root id example_quiet_run example_tree_two
   \<and> (case pipeline example_root example_root id example_quiet_run example_tree_two of
         Inl e \<Rightarrow> False
       | Inr (written, report) \<Rightarrow>
           map d_name (inv_items written) = [''OrderEvent'', ''ZoneEvent'']
           \<and> map u_variant report = [''Created'', ''Cancelled'', ''Opened''])"
proof -
  have m: "mset (rev example_tree_two) = mset example_tree_two"
    by simp
  have d: "distinct (map (\<lambda>(path, text). path_key path) example_tree_two)"
    by code_simp
  have n: "rev example_tree_two \<noteq> example_tree_two"
    by code_simp
  have r: "case pipeline example_root example_root id example_quiet_run example_tree_two of
         Inl e \<Rightarrow> False
       | Inr (written, report) \<Rightarrow>
           map d_name (inv_items written) = [''OrderEvent'', ''ZoneEvent'']
           \<and> map u_variant report = [''Created'', ''Cancelled'', ''Opened'']"
    by code_simp
  from pipeline_independent_of_walk_order [OF m d] m d n r show ?thesis
    by simp
qed

end
